theory Spec2Isabelle
  imports Main "HOL-Library.Multiset"
begin

section \<open>The syntax tree\<close>

text \<open>
  The visitors of \<^verbatim>\<open>visitors/ast/complexity/counts.py\<close> work on the tree of Python's
  \<^verbatim>\<open>ast\<close> module. Every node is an object with an identity; the model gives each
  node a number \<open>nid\<close> that stands for that identity (a parsed tree never holds the
  same object twice). The constructors keep the names and the field order
  (\<^verbatim>\<open>_fields\<close>) of the \<^verbatim>\<open>ast\<close> classes; expression and statement kinds that no
  visitor of this development looks at are \<open>OtherExpr\<close> and \<open>OtherStmt\<close>, with their
  child expressions in field order. \<open>OtherStmt\<close> is a simple statement: every statement kind
  of Python that holds statements has a constructor of its own (\<open>For\<close> and \<open>With\<close> also stand
  for \<^verbatim>\<open>AsyncFor\<close> and \<^verbatim>\<open>AsyncWith\<close>, which have the same fields).
\<close>

datatype boolop = And | Or

datatype cmpop = Eq | NotEq | Lt | LtE | Gt | GtE | Is | IsNot | In | NotIn

datatype expr =
    BoolOp nat boolop "expr list"
  | Compare nat expr "cmpop list" "expr list"
  | Tuple nat "expr list"
  | Name nat string
  | Attribute nat expr string
  | Subscript nat expr expr
  | Call nat expr "expr list"
  | OtherExpr nat "expr list"

text \<open>
  \<open>FunctionDef i is_async name args arg_exprs body decorator_list returns\<close>:
  \<open>args\<close> are the names of the positional parameters in declared order,
  \<open>arg_exprs\<close> the annotation and default expressions of the \<^verbatim>\<open>arguments\<close> node.
  \<open>ClassDef i name bases body decorator_list\<close>.
  \<open>Try i is_star body handlers orelse finalbody\<close> is \<^verbatim>\<open>ast.Try\<close> or \<^verbatim>\<open>ast.TryStar\<close>.
  \<open>Match i subject cases\<close>, with \<open>MatchCase pattern_exprs guard body\<close> for \<^verbatim>\<open>ast.match_case\<close>:
  \<open>pattern_exprs\<close> are the expressions of the pattern.
\<close>

datatype stmt =
    FunctionDef nat bool string "string list" "expr list" "stmt list" "expr list" "expr option"
  | ClassDef nat string "expr list" "stmt list" "expr list"
  | IfNode nat expr "stmt list" "stmt list"
  | For nat expr expr "stmt list" "stmt list"
  | While nat expr "stmt list" "stmt list"
  | With nat "expr list" "stmt list"
  | Try nat bool "stmt list" "excepthandler list" "stmt list" "stmt list"
  | Match nat expr "match_case list"
  | Assign nat "expr list" expr
  | AnnAssign nat expr expr "expr option"
  | Return nat "expr option"
  | Expr nat expr
  | OtherStmt nat "expr list"
and excepthandler =
    ExceptHandler nat "expr option" "string option" "stmt list"
and match_case =
    MatchCase "expr list" "expr option" "stmt list"

datatype module = Module "stmt list"

fun expr_id :: "expr \<Rightarrow> nat" where
  "expr_id (BoolOp i _ _) = i"
| "expr_id (Compare i _ _ _) = i"
| "expr_id (Tuple i _) = i"
| "expr_id (Name i _) = i"
| "expr_id (Attribute i _ _) = i"
| "expr_id (Subscript i _ _) = i"
| "expr_id (Call i _ _) = i"
| "expr_id (OtherExpr i _) = i"

fun nid :: "stmt \<Rightarrow> nat" where
  "nid (FunctionDef i _ _ _ _ _ _ _) = i"
| "nid (ClassDef i _ _ _ _) = i"
| "nid (IfNode i _ _ _) = i"
| "nid (For i _ _ _ _) = i"
| "nid (While i _ _ _) = i"
| "nid (With i _ _) = i"
| "nid (Try i _ _ _ _ _) = i"
| "nid (Match i _ _) = i"
| "nid (Assign i _ _) = i"
| "nid (AnnAssign i _ _ _) = i"
| "nid (Return i _) = i"
| "nid (Expr i _) = i"
| "nid (OtherStmt i _) = i"

fun handler_id :: "excepthandler \<Rightarrow> nat" where
  "handler_id (ExceptHandler i _ _ _) = i"

fun is_If :: "stmt \<Rightarrow> bool" where
  "is_If (IfNode _ _ _ _) = True"
| "is_If _ = False"

fun orelse :: "stmt \<Rightarrow> stmt list" where
  "orelse (IfNode _ _ _ e) = e"
| "orelse (For _ _ _ _ e) = e"
| "orelse (While _ _ _ e) = e"
| "orelse (Try _ _ _ _ e _) = e"
| "orelse _ = []"

fun decorator_list :: "stmt \<Rightarrow> expr list" where
  "decorator_list (FunctionDef _ _ _ _ _ _ ds _) = ds"
| "decorator_list (ClassDef _ _ _ _ ds) = ds"
| "decorator_list _ = []"

section \<open>Contexts and the traversal\<close>

text \<open>
  Modelled from the spec: \<^verbatim>\<open>logic.nodes.get_context\<close> is not part of the sources at
  hand. Section 4.1 of the specification: the context of a node is its nearest enclosing
  module, class or function; entering a class or function body opens a new one, every
  other compound statement does not.
\<close>

datatype node_context = InModule | InClass nat | InFunction nat

text \<open>
  One entry of the traversal: a statement with the context \<^verbatim>\<open>get_context\<close> returns
  for it, an exception handler, a case of a \<^verbatim>\<open>match\<close> statement, or an expression.
\<close>

datatype node =
    StmtNode node_context stmt
  | HandlerNode excepthandler
  | CaseNode match_case
  | ExprNode expr

text \<open>
  \<^verbatim>\<open>ast.NodeVisitor.generic_visit\<close> visits the children of a node in field order, and
  every \<^verbatim>\<open>visit_...\<close> method of \<^verbatim>\<open>counts.py\<close> runs its checks on the node and then
  calls \<^verbatim>\<open>generic_visit\<close>. A run therefore handles the nodes of the tree in pre-order;
  \<open>preorder_expr\<close>, \<open>preorder_stmt\<close>, \<open>preorder_handler\<close> and \<open>preorder_case\<close> list them.
\<close>

fun preorder_expr :: "expr \<Rightarrow> expr list" where
  "preorder_expr (BoolOp i op vs) = BoolOp i op vs # concat (map preorder_expr vs)"
| "preorder_expr (Compare i l ops cs) =
     Compare i l ops cs # preorder_expr l @ concat (map preorder_expr cs)"
| "preorder_expr (Tuple i es) = Tuple i es # concat (map preorder_expr es)"
| "preorder_expr (Name i n) = [Name i n]"
| "preorder_expr (Attribute i e a) = Attribute i e a # preorder_expr e"
| "preorder_expr (Subscript i e s) = Subscript i e s # preorder_expr e @ preorder_expr s"
| "preorder_expr (Call i f as) = Call i f as # preorder_expr f @ concat (map preorder_expr as)"
| "preorder_expr (OtherExpr i es) = OtherExpr i es # concat (map preorder_expr es)"

definition preorder_exprs :: "expr list \<Rightarrow> node list" where
  "preorder_exprs es = map ExprNode (concat (map preorder_expr es))"

fun preorder_opt :: "expr option \<Rightarrow> node list" where
  "preorder_opt None = []"
| "preorder_opt (Some e) = preorder_exprs [e]"

fun preorder_stmt :: "node_context \<Rightarrow> stmt \<Rightarrow> node list"
  and preorder_handler :: "node_context \<Rightarrow> excepthandler \<Rightarrow> node list"
  and preorder_case :: "node_context \<Rightarrow> match_case \<Rightarrow> node list" where
  "preorder_stmt c (FunctionDef i a n ps es b ds r) =
     StmtNode c (FunctionDef i a n ps es b ds r) # preorder_exprs es
       @ concat (map (preorder_stmt (InFunction i)) b) @ preorder_exprs ds @ preorder_opt r"
| "preorder_stmt c (ClassDef i n bs b ds) =
     StmtNode c (ClassDef i n bs b ds) # preorder_exprs bs
       @ concat (map (preorder_stmt (InClass i)) b) @ preorder_exprs ds"
| "preorder_stmt c (IfNode i t b e) =
     StmtNode c (IfNode i t b e) # preorder_exprs [t]
       @ concat (map (preorder_stmt c) b) @ concat (map (preorder_stmt c) e)"
| "preorder_stmt c (For i t it b e) =
     StmtNode c (For i t it b e) # preorder_exprs [t, it]
       @ concat (map (preorder_stmt c) b) @ concat (map (preorder_stmt c) e)"
| "preorder_stmt c (While i t b e) =
     StmtNode c (While i t b e) # preorder_exprs [t]
       @ concat (map (preorder_stmt c) b) @ concat (map (preorder_stmt c) e)"
| "preorder_stmt c (With i its b) =
     StmtNode c (With i its b) # preorder_exprs its @ concat (map (preorder_stmt c) b)"
| "preorder_stmt c (Try i st b hs e f) =
     StmtNode c (Try i st b hs e f) # concat (map (preorder_stmt c) b)
       @ concat (map (preorder_handler c) hs)
       @ concat (map (preorder_stmt c) e) @ concat (map (preorder_stmt c) f)"
| "preorder_stmt c (Match i sj cs) =
     StmtNode c (Match i sj cs) # preorder_exprs [sj] @ concat (map (preorder_case c) cs)"
| "preorder_stmt c (Assign i ts v) = StmtNode c (Assign i ts v) # preorder_exprs (ts @ [v])"
| "preorder_stmt c (AnnAssign i t a v) =
     StmtNode c (AnnAssign i t a v) # preorder_exprs [t, a] @ preorder_opt v"
| "preorder_stmt c (Return i v) = StmtNode c (Return i v) # preorder_opt v"
| "preorder_stmt c (Expr i e) = StmtNode c (Expr i e) # preorder_exprs [e]"
| "preorder_stmt c (OtherStmt i es) = StmtNode c (OtherStmt i es) # preorder_exprs es"
| "preorder_handler c (ExceptHandler i t n b) =
     HandlerNode (ExceptHandler i t n b) # preorder_opt t @ concat (map (preorder_stmt c) b)"
| "preorder_case c (MatchCase ps g b) =
     CaseNode (MatchCase ps g b) # preorder_exprs ps @ preorder_opt g
       @ concat (map (preorder_stmt c) b)"

definition preorder_stmts :: "node_context \<Rightarrow> stmt list \<Rightarrow> node list" where
  "preorder_stmts c ss = concat (map (preorder_stmt c) ss)"

fun preorder :: "module \<Rightarrow> node list" where
  "preorder (Module b) = preorder_stmts InModule b"

section \<open>Violations, options and constants\<close>

text \<open>
  \<^verbatim>\<open>str\<close> of a Python integer, for the \<^verbatim>\<open>text=str(...)\<close> arguments.
\<close>

definition digit_char :: "nat \<Rightarrow> char" where
  "digit_char d = ''0123456789'' ! d"

fun str_nat :: "nat \<Rightarrow> string" where
  "str_nat n = (if n < 10 then [digit_char n] else str_nat (n div 10) @ [digit_char (n mod 10)])"

declare str_nat.simps [simp del]

definition str :: "int \<Rightarrow> string" where
  "str k = (if k < 0 then CHR ''-'' # str_nat (nat (- k)) else str_nat (nat k))"

datatype violation_kind =
    TooManyDecoratorsViolation
  | TooManyModuleMembersViolation
  | TooManyConditionsViolation
  | TooLongCompareViolation
  | TooManyElifsViolation
  | TooManyExceptCasesViolation
  | TooLongTryBodyViolation
  | TooLongFinallyBodyViolation
  | TooManyExceptExceptionsViolation
  | ShadowedClassAttributeViolation

text \<open>
  A violation as the visitors build it: the violation class, the node it is anchored at
  (\<open>None\<close> when the constructor gets no node), the text and the baseline.
\<close>

record violation =
  vkind :: violation_kind
  vnode :: "nat option"
  vtext :: string
  vbaseline :: "int option"

definition mk_violation :: "violation_kind \<Rightarrow> nat option \<Rightarrow> string \<Rightarrow> int option \<Rightarrow> violation" where
  "mk_violation k n t b = \<lparr>vkind = k, vnode = n, vtext = t, vbaseline = b\<rparr>"

text \<open>The fields of \<^verbatim>\<open>self.options\<close> that the visitors read; Python integers.\<close>

record options =
  max_decorators :: int
  max_module_members :: int
  max_try_body_length :: int
  max_lines_in_finally :: int
  max_except_exceptions :: int

text \<open>
  The module \<^verbatim>\<open>constants\<close> is not part of the sources at hand; the values the visitors
  read from it are parameters.
\<close>

record constants =
  MAX_CONDITIONS :: int
  MAX_COMPARES :: int
  MAX_ELIFS :: int
  MAX_EXCEPT_CASES :: int

section \<open>ConditionsVisitor\<close>

text \<open>
  \<^verbatim>\<open>_count_conditions\<close>: the loop over \<^verbatim>\<open>node.values\<close>; the argument is that list.
\<close>

fun count_conditions :: "expr list \<Rightarrow> int" where
  "count_conditions [] = 0"
| "count_conditions (BoolOp i op vs # rest) = count_conditions vs + count_conditions rest"
| "count_conditions (c # rest) = 1 + count_conditions rest"

fun check_conditions :: "constants \<Rightarrow> expr \<Rightarrow> violation list" where
  "check_conditions k (BoolOp i op vs) =
     (let conditions_count = count_conditions vs
      in if conditions_count > MAX_CONDITIONS k
         then [mk_violation TooManyConditionsViolation (Some i) (str conditions_count)
                 (Some (MAX_CONDITIONS k))]
         else [])"
| "check_conditions k _ = []"

definition compare_threshold :: "constants \<Rightarrow> cmpop list \<Rightarrow> int" where
  "compare_threshold k ops =
     (let is_all_equals = list_all (\<lambda>op. op = Eq) ops;
          is_all_notequals = list_all (\<lambda>op. op = NotEq) ops;
          can_be_longer = (is_all_notequals \<or> is_all_equals);
          threshold = MAX_COMPARES k
      in if can_be_longer then threshold + 1 else threshold)"

fun check_compares :: "constants \<Rightarrow> expr \<Rightarrow> violation list" where
  "check_compares k (Compare i l ops cs) =
     (let threshold = compare_threshold k ops
      in if int (length ops) > threshold
         then [mk_violation TooLongCompareViolation (Some i) (str (int (length ops)))
                 (Some threshold)]
         else [])"
| "check_compares k _ = []"

text \<open>
  \<^verbatim>\<open>visit_BoolOp\<close> and \<^verbatim>\<open>visit_Compare\<close>: the violations the visitor adds at one node.
\<close>

fun conditions_visit :: "constants \<Rightarrow> node \<Rightarrow> violation list" where
  "conditions_visit k (ExprNode (BoolOp i op vs)) = check_conditions k (BoolOp i op vs)"
| "conditions_visit k (ExprNode (Compare i l ops cs)) = check_compares k (Compare i l ops cs)"
| "conditions_visit k _ = []"

definition conditions_run :: "constants \<Rightarrow> module \<Rightarrow> violation list" where
  "conditions_run k tree = fold (\<lambda>n vs. vs @ conditions_visit k n) (preorder tree) []"

section \<open>TryExceptVisitor\<close>

fun check_except_count :: "constants \<Rightarrow> stmt \<Rightarrow> violation list" where
  "check_except_count k (Try i st b hs e f) =
     (if int (length hs) > MAX_EXCEPT_CASES k
      then [mk_violation TooManyExceptCasesViolation (Some i) (str (int (length hs)))
              (Some (MAX_EXCEPT_CASES k))]
      else [])"
| "check_except_count k _ = []"

fun check_try_body_length :: "options \<Rightarrow> stmt \<Rightarrow> violation list" where
  "check_try_body_length opts (Try i st b hs e f) =
     (if int (length b) > max_try_body_length opts
      then [mk_violation TooLongTryBodyViolation (Some i) (str (int (length b)))
              (Some (max_try_body_length opts))]
      else [])"
| "check_try_body_length opts _ = []"

fun check_finally_body_length :: "options \<Rightarrow> stmt \<Rightarrow> violation list" where
  "check_finally_body_length opts (Try i st b hs e f) =
     (if int (length f) > max_lines_in_finally opts
      then [mk_violation TooLongFinallyBodyViolation (Some i) (str (int (length f)))
              (Some (max_lines_in_finally opts))]
      else [])"
| "check_finally_body_length opts _ = []"

text \<open>
  The body of the loop of \<^verbatim>\<open>_check_exceptions_count\<close>, for one handler:
  \<^verbatim>\<open>except_handler.type\<close> is \<open>None\<close> for a bare \<^verbatim>\<open>except:\<close>, and
  \<^verbatim>\<open>isinstance(exc_type, ast.Tuple)\<close> guards the read of \<^verbatim>\<open>exc_type.elts\<close>.
\<close>

fun check_handler_exceptions :: "options \<Rightarrow> excepthandler \<Rightarrow> violation list" where
  "check_handler_exceptions opts (ExceptHandler hi (Some (Tuple ti elts)) n hb) =
     (if int (length elts) > max_except_exceptions opts
      then [mk_violation TooManyExceptExceptionsViolation (Some hi) (str (int (length elts)))
              (Some (max_except_exceptions opts))]
      else [])"
| "check_handler_exceptions opts _ = []"

fun check_exceptions_count :: "options \<Rightarrow> stmt \<Rightarrow> violation list" where
  "check_exceptions_count opts (Try i st b hs e f) =
     concat (map (check_handler_exceptions opts) hs)"
| "check_exceptions_count opts _ = []"

text \<open>\<^verbatim>\<open>visit_any_try\<close>, the handler of \<^verbatim>\<open>Try\<close> and \<^verbatim>\<open>TryStar\<close> nodes.\<close>

fun try_except_visit :: "constants \<Rightarrow> options \<Rightarrow> node \<Rightarrow> violation list" where
  "try_except_visit k opts (StmtNode c (Try i st b hs e f)) =
     check_except_count k (Try i st b hs e f)
       @ check_try_body_length opts (Try i st b hs e f)
       @ check_finally_body_length opts (Try i st b hs e f)
       @ check_exceptions_count opts (Try i st b hs e f)"
| "try_except_visit k opts _ = []"

definition try_except_run :: "constants \<Rightarrow> options \<Rightarrow> module \<Rightarrow> violation list" where
  "try_except_run k opts tree = fold (\<lambda>n vs. vs @ try_except_visit k opts n) (preorder tree) []"

section \<open>ModuleMembersVisitor\<close>

record members_state =
  public_items_count :: int
  violations :: "violation list"

fun is_FunctionDef :: "stmt \<Rightarrow> bool" where
  "is_FunctionDef (FunctionDef _ _ _ _ _ _ _ _) = True"
| "is_FunctionDef _ = False"

fun is_ClassDef :: "stmt \<Rightarrow> bool" where
  "is_ClassDef (ClassDef _ _ _ _ _) = True"
| "is_ClassDef _ = False"

text \<open>
  \<^verbatim>\<open>decorators.has_overload_decorator\<close> is not part of the sources at hand; it is the
  parameter \<open>has_overload\<close> of the visitor. \<^verbatim>\<open>FunctionNodes\<close> are the synchronous and
  the asynchronous function definition, both \<open>FunctionDef\<close> here.
\<close>

definition check_members_count ::
  "(stmt \<Rightarrow> bool) \<Rightarrow> node_context \<Rightarrow> stmt \<Rightarrow> members_state \<Rightarrow> members_state" where
  "check_members_count has_overload c node st =
     (if c \<noteq> InModule then st
      else if is_FunctionDef node \<and> has_overload node then st
      else st\<lparr>public_items_count := public_items_count st + 1\<rparr>)"

definition check_decorators_count :: "options \<Rightarrow> stmt \<Rightarrow> members_state \<Rightarrow> members_state" where
  "check_decorators_count opts node st =
     (let number_of_decorators = int (length (decorator_list node))
      in if number_of_decorators > max_decorators opts
         then st\<lparr>violations := violations st @
                [mk_violation TooManyDecoratorsViolation (Some (nid node))
                   (str number_of_decorators) (Some (max_decorators opts))]\<rparr>
         else st)"

text \<open>
  \<^verbatim>\<open>visit_module_members\<close>, the handler of \<^verbatim>\<open>ClassDef\<close>, \<^verbatim>\<open>AsyncFunctionDef\<close> and
  \<^verbatim>\<open>FunctionDef\<close> nodes.
\<close>

fun visit_module_members ::
  "(stmt \<Rightarrow> bool) \<Rightarrow> options \<Rightarrow> node \<Rightarrow> members_state \<Rightarrow> members_state" where
  "visit_module_members has_overload opts (StmtNode c node) st =
     (if is_ClassDef node \<or> is_FunctionDef node
      then check_members_count has_overload c node (check_decorators_count opts node st)
      else st)"
| "visit_module_members has_overload opts _ st = st"

definition members_post_visit :: "options \<Rightarrow> members_state \<Rightarrow> members_state" where
  "members_post_visit opts st =
     (if public_items_count st > max_module_members opts
      then st\<lparr>violations := violations st @
             [mk_violation TooManyModuleMembersViolation None (str (public_items_count st))
                (Some (max_module_members opts))]\<rparr>
      else st)"

definition members_traverse ::
  "(stmt \<Rightarrow> bool) \<Rightarrow> options \<Rightarrow> module \<Rightarrow> members_state" where
  "members_traverse has_overload opts tree =
     fold (visit_module_members has_overload opts) (preorder tree)
       \<lparr>public_items_count = 0, violations = []\<rparr>"

definition module_members_run ::
  "(stmt \<Rightarrow> bool) \<Rightarrow> options \<Rightarrow> module \<Rightarrow> violation list" where
  "module_members_run has_overload opts tree =
     violations (members_post_visit opts (members_traverse has_overload opts tree))"

text \<open>
  The declarations a module owns, written from the claim's words: the class and function
  declarations met from the module body without entering a class or function body. Every
  other statement that holds statements (conditionals, loops, \<^verbatim>\<open>with\<close>, \<^verbatim>\<open>try\<close> with its
  handlers, \<^verbatim>\<open>match\<close> with its cases) opens no scope.
\<close>

fun module_level :: "stmt \<Rightarrow> stmt list"
  and module_level_handler :: "excepthandler \<Rightarrow> stmt list"
  and module_level_case :: "match_case \<Rightarrow> stmt list" where
  "module_level (FunctionDef i a n ps es b ds r) = [FunctionDef i a n ps es b ds r]"
| "module_level (ClassDef i n bs b ds) = [ClassDef i n bs b ds]"
| "module_level (IfNode i t b e) = concat (map module_level b) @ concat (map module_level e)"
| "module_level (For i t it b e) = concat (map module_level b) @ concat (map module_level e)"
| "module_level (While i t b e) = concat (map module_level b) @ concat (map module_level e)"
| "module_level (With i its b) = concat (map module_level b)"
| "module_level (Try i st b hs e f) =
     concat (map module_level b) @ concat (map module_level_handler hs)
       @ concat (map module_level e) @ concat (map module_level f)"
| "module_level (Match i sj cs) = concat (map module_level_case cs)"
| "module_level (Assign i ts v) = []"
| "module_level (AnnAssign i t a v) = []"
| "module_level (Return i v) = []"
| "module_level (Expr i e) = []"
| "module_level (OtherStmt i es) = []"
| "module_level_handler (ExceptHandler i t n b) = concat (map module_level b)"
| "module_level_case (MatchCase ps g b) = concat (map module_level b)"

fun module_members :: "module \<Rightarrow> stmt list" where
  "module_members (Module b) = concat (map module_level b)"

fun stmts_of :: "node list \<Rightarrow> (node_context \<times> stmt) list" where
  "stmts_of [] = []"
| "stmts_of (StmtNode c s # ns) = (c, s) # stmts_of ns"
| "stmts_of (n # ns) = stmts_of ns"

fun handlers_of :: "node list \<Rightarrow> excepthandler list" where
  "handlers_of [] = []"
| "handlers_of (HandlerNode h # ns) = h # handlers_of ns"
| "handlers_of (n # ns) = handlers_of ns"

text \<open>
  The declarations of a traversal that \<^verbatim>\<open>get_context\<close> places in the module.
\<close>

definition module_scope_decls :: "node list \<Rightarrow> stmt list" where
  "module_scope_decls ns =
     map snd (filter (\<lambda>(c, s). (is_ClassDef s \<or> is_FunctionDef s) \<and> c = InModule) (stmts_of ns))"

text \<open>What \<^verbatim>\<open>_check_decorators_count\<close> adds for one declaration.\<close>

definition decorators_violation :: "options \<Rightarrow> stmt \<Rightarrow> violation list" where
  "decorators_violation opts s =
     (if (is_ClassDef s \<or> is_FunctionDef s) \<and> int (length (decorator_list s)) > max_decorators opts
      then [mk_violation TooManyDecoratorsViolation (Some (nid s))
              (str (int (length (decorator_list s)))) (Some (max_decorators opts))]
      else [])"

fun handlers :: "stmt \<Rightarrow> excepthandler list" where
  "handlers (Try _ _ _ hs _ _) = hs"
| "handlers _ = []"

fun handler_type :: "excepthandler \<Rightarrow> expr option" where
  "handler_type (ExceptHandler _ t _ _) = t"

fun is_Tuple :: "expr \<Rightarrow> bool" where
  "is_Tuple (Tuple _ _) = True"
| "is_Tuple _ = False"

text \<open>
  An instance of the parameter \<open>has_overload\<close> for the examples: a decorator written
  \<^verbatim>\<open>@overload\<close>.
\<close>

fun is_overload_name :: "expr \<Rightarrow> bool" where
  "is_overload_name (Name _ n) = (n = ''overload'')"
| "is_overload_name _ = False"

definition example_has_overload :: "stmt \<Rightarrow> bool" where
  "example_has_overload s = list_ex is_overload_name (decorator_list s)"

definition example_options :: options where
  "example_options =
     \<lparr>max_decorators = 1, max_module_members = 2, max_try_body_length = 1,
      max_lines_in_finally = 2, max_except_exceptions = 3\<rparr>"

section \<open>ElifVisitor\<close>

text \<open>
  \<^verbatim>\<open>self._if_children\<close> is a \<^verbatim>\<open>defaultdict(list)\<close> keyed by \<^verbatim>\<open>ast.If\<close> objects. The model keeps
  it as an association list in insertion order (the order in which Python iterates a
  dictionary), with the nodes given by their numbers: \<^verbatim>\<open>ast\<close> nodes hash and compare by
  identity.
\<close>

type_synonym if_children = "(nat \<times> nat list) list"

text \<open>\<^verbatim>\<open>_get_root_if_node\<close>: the first key whose list holds the node, else the node.\<close>

fun get_root_if_node :: "if_children \<Rightarrow> nat \<Rightarrow> nat" where
  "get_root_if_node [] node = node"
| "get_root_if_node ((root, children) # rest) node =
     (if node \<in> set children then root else get_root_if_node rest node)"

text \<open>
  \<^verbatim>\<open>self._if_children[root].extend(xs)\<close>; reading a missing key of a \<^verbatim>\<open>defaultdict\<close>
  inserts it, at the end, with an empty list.
\<close>

fun extend_children :: "if_children \<Rightarrow> nat \<Rightarrow> nat list \<Rightarrow> if_children" where
  "extend_children [] root xs = [(root, xs)]"
| "extend_children ((r, cs) # rest) root xs =
     (if r = root then (r, cs @ xs) # rest else (r, cs) # extend_children rest root xs)"

definition update_if_child :: "if_children \<Rightarrow> nat \<Rightarrow> stmt \<Rightarrow> if_children" where
  "update_if_child d root node =
     (let d1 = (if nid node \<noteq> root then extend_children d root [nid node] else d)
      in extend_children d1 root (map nid (orelse node)))"

definition check_elifs :: "stmt \<Rightarrow> if_children \<Rightarrow> if_children" where
  "check_elifs node d =
     (let has_elif = list_all is_If (orelse node)
      in if has_elif
         then (let root = get_root_if_node d (nid node) in update_if_child d root node)
         else d)"

text \<open>\<^verbatim>\<open>visit_If\<close>.\<close>

fun elif_visit :: "node \<Rightarrow> if_children \<Rightarrow> if_children" where
  "elif_visit (StmtNode c (IfNode i t b e)) d = check_elifs (IfNode i t b e) d"
| "elif_visit _ d = d"

text \<open>\<^verbatim>\<open>_post_visit\<close>: one pass over the items of the dictionary.\<close>

definition elifs_violation :: "constants \<Rightarrow> nat \<times> nat list \<Rightarrow> violation list" where
  "elifs_violation k item =
     (case item of (root, children) \<Rightarrow>
        (let real_children_length = int (card (set children))
         in if real_children_length > MAX_ELIFS k
            then [mk_violation TooManyElifsViolation (Some root) (str real_children_length)
                    (Some (MAX_ELIFS k))]
            else []))"

definition elif_post_visit :: "constants \<Rightarrow> if_children \<Rightarrow> violation list" where
  "elif_post_visit k d = concat (map (elifs_violation k) d)"

definition elif_traverse :: "module \<Rightarrow> if_children" where
  "elif_traverse tree = fold elif_visit (preorder tree) []"

definition elif_run :: "constants \<Rightarrow> module \<Rightarrow> violation list" where
  "elif_run k tree = elif_post_visit k (elif_traverse tree)"

text \<open>
  The words of the claim about cascades. \<open>cascade N root\<close>: below \<open>root\<close> there are \<open>N\<close> nested
  else-if conditionals, each the only statement of the alternative branch of the one
  before, and the last conditional of the chain has an else block that does not consist of
  conditionals only. \<open>chain_members N root\<close> are the numbers of these \<open>N\<close> conditionals.
\<close>

fun cascade :: "nat \<Rightarrow> stmt \<Rightarrow> bool" where
  "cascade 0 (IfNode i t b e) = (\<not> list_all is_If e)"
| "cascade (Suc n) (IfNode i t b [c]) = cascade n c"
| "cascade _ _ = False"

fun chain_members :: "nat \<Rightarrow> stmt \<Rightarrow> nat list" where
  "chain_members (Suc n) (IfNode i t b [c]) = nid c # chain_members n c"
| "chain_members _ _ = []"

definition if_nodes :: "node list \<Rightarrow> stmt list" where
  "if_nodes ns = filter is_If (map snd (stmts_of ns))"

definition children_of :: "if_children \<Rightarrow> nat \<Rightarrow> nat list" where
  "children_of d root = (case map_of d root of None \<Rightarrow> [] | Some cs \<Rightarrow> cs)"

text \<open>
  \<^verbatim>\<open>
  if a: ...            (1)
  elif b: ...          (3)
  elif c:              (5)
      if x: ...        (7)
  elif d: ...          (9)
  elif e: ...          (11)
  else: ...
  \<close>
\<close>

definition example_cascade :: stmt where
  "example_cascade =
     IfNode 1 (Name 2 ''a'') [OtherStmt 20 []]
      [IfNode 3 (Name 4 ''b'') [OtherStmt 21 []]
        [IfNode 5 (Name 6 ''c'') [IfNode 7 (Name 8 ''x'') [OtherStmt 22 []] []]
          [IfNode 9 (Name 10 ''d'') [OtherStmt 23 []]
            [IfNode 11 (Name 12 ''e'') [OtherStmt 24 []] [OtherStmt 25 []]]]]]"

subsection \<open>The conditionals of a tree\<close>

text \<open>
  The visitor only looks at \<open>If\<close> nodes: at the number of the node, at whether its
  alternative branch consists of conditionals, and at the numbers of the statements of that
  branch. \<open>forest\<close> keeps just that of a statement, with the conditionals below the body and
  below the alternative branch.
\<close>

datatype itree = INode nat bool "nat list" "itree list" "itree list"

fun iid :: "itree \<Rightarrow> nat" where
  "iid (INode i h os b e) = i"

fun forest :: "stmt \<Rightarrow> itree list"
  and forest_handler :: "excepthandler \<Rightarrow> itree list"
  and forest_case :: "match_case \<Rightarrow> itree list" where
  "forest (IfNode i t b e) =
     [INode i (list_all is_If e) (map nid e) (concat (map forest b)) (concat (map forest e))]"
| "forest (FunctionDef i a n ps es b ds r) = concat (map forest b)"
| "forest (ClassDef i n bs b ds) = concat (map forest b)"
| "forest (For i t it b e) = concat (map forest b) @ concat (map forest e)"
| "forest (While i t b e) = concat (map forest b) @ concat (map forest e)"
| "forest (With i its b) = concat (map forest b)"
| "forest (Try i st b hs e f) =
     concat (map forest b) @ concat (map forest_handler hs)
       @ concat (map forest e) @ concat (map forest f)"
| "forest (Match i sj cs) = concat (map forest_case cs)"
| "forest (Assign i ts v) = []"
| "forest (AnnAssign i t a v) = []"
| "forest (Return i v) = []"
| "forest (Expr i e) = []"
| "forest (OtherStmt i es) = []"
| "forest_handler (ExceptHandler i t n b) = concat (map forest b)"
| "forest_case (MatchCase ps g b) = concat (map forest b)"

fun subtrees :: "itree \<Rightarrow> itree list" where
  "subtrees (INode i h os b e) =
     INode i h os b e # concat (map subtrees b) @ concat (map subtrees e)"

definition ids :: "itree list \<Rightarrow> nat set" where
  "ids ts = iid ` set (concat (map subtrees ts))"

text \<open>\<open>_check_elifs\<close> on what \<open>forest\<close> keeps of a node.\<close>

fun istep :: "itree \<Rightarrow> if_children \<Rightarrow> if_children" where
  "istep (INode i h os b e) d =
     (if h
      then (let root = get_root_if_node d i;
                d1 = (if i \<noteq> root then extend_children d root [i] else d)
            in extend_children d1 root os)
      else d)"

text \<open>
  The updates of the dictionary that the traversal of a tree makes, when the root of the
  tree's top node is known beforehand: \<open>Some r\<close> when the node already is in the list of
  \<open>r\<close>, \<open>None\<close> when it is in no list.
\<close>

fun events :: "nat option \<Rightarrow> itree \<Rightarrow> (nat \<times> nat list) list" where
  "events ow (INode i h os b e) =
     (let root = (case ow of Some r \<Rightarrow> r | None \<Rightarrow> i)
      in (if h then [(root, (if i \<noteq> root then [i] else []) @ os)] else [])
           @ concat (map (events None) b)
           @ concat (map (events (if h then Some root else None)) e))"

definition apply_event :: "nat \<times> nat list \<Rightarrow> if_children \<Rightarrow> if_children" where
  "apply_event ev d = extend_children d (fst ev) (snd ev)"

definition refs :: "if_children \<Rightarrow> nat set" where
  "refs d = (\<Union>(r, cs) \<in> set d. set cs)"

fun wf_itree :: "itree \<Rightarrow> bool" where
  "wf_itree (INode i h os b e) =
     ((h \<longrightarrow> map iid e = os) \<and> list_all wf_itree b \<and> list_all wf_itree e)"

fun icascade :: "nat \<Rightarrow> itree \<Rightarrow> bool" where
  "icascade 0 (INode i h os b e) = (\<not> h)"
| "icascade (Suc k) (INode i h os b [c]) = (h \<and> icascade k c)"
| "icascade (Suc k) _ = False"

fun ichain :: "nat \<Rightarrow> itree \<Rightarrow> nat list" where
  "ichain (Suc k) (INode i h os b [c]) = iid c # ichain k c"
| "ichain _ _ = []"

fun chain_events :: "nat \<Rightarrow> nat \<Rightarrow> itree \<Rightarrow> (nat \<times> nat list) list" where
  "chain_events r (Suc k) (INode i h os b [c]) = (r, [i, iid c]) # chain_events r k c"
| "chain_events r _ _ = []"

definition event_ids :: "(nat \<times> nat list) list \<Rightarrow> nat set" where
  "event_ids evs = (\<Union>ev \<in> set evs. set (snd ev))"

definition distinct_ids :: "itree list \<Rightarrow> bool" where
  "distinct_ids ts = distinct (map iid (concat (map subtrees ts)))"

text \<open>
  What the traversal of a tree relies on, for the state \<open>d\<close> it starts in and the root \<open>ow\<close>
  its top node is to get: no node of the tree is in a list of \<open>d\<close>, but the top node when it
  has a root, and then \<open>_get_root_if_node\<close> finds that root.
\<close>

definition owner_ok :: "if_children \<Rightarrow> nat option \<Rightarrow> itree \<Rightarrow> bool" where
  "owner_ok d ow n =
     ((\<forall>x \<in> ids [n]. x \<in> refs d \<longrightarrow> ow \<noteq> None \<and> x = iid n)
      \<and> (\<forall>r. ow = Some r \<longrightarrow> get_root_if_node d (iid n) = r))"

fun ielif :: "itree \<Rightarrow> bool" where
  "ielif (INode i h os b e) = h"

fun iorelse :: "itree \<Rightarrow> nat list" where
  "iorelse (INode i h os b e) = os"

definition at_key :: "nat \<Rightarrow> (nat \<times> nat list) list \<Rightarrow> (nat \<times> nat list) list" where
  "at_key k evs = filter (\<lambda>ev. fst ev = k) evs"

definition itree_of :: "stmt \<Rightarrow> itree" where
  "itree_of s = hd (forest s)"

definition linear :: "stmt \<Rightarrow> itree list" where
  "linear s = concat (map subtrees (forest s))"

definition linear_handler :: "excepthandler \<Rightarrow> itree list" where
  "linear_handler h = concat (map subtrees (forest_handler h))"

definition linear_case :: "match_case \<Rightarrow> itree list" where
  "linear_case m = concat (map subtrees (forest_case m))"

text \<open>
  \<open>leaf_operands\<close> lists what the loop of \<^verbatim>\<open>_count_conditions\<close> counts: the operands reached
  from a boolean combination through nested \<open>BoolOp\<close> nodes of any operator, the test of the
  loop being \<^verbatim>\<open>isinstance(condition, ast.BoolOp)\<close> alone.
\<close>

fun is_BoolOp :: "expr \<Rightarrow> bool" where
  "is_BoolOp (BoolOp _ _ _) = True"
| "is_BoolOp _ = False"

fun leaf_operands :: "expr \<Rightarrow> expr list" where
  "leaf_operands (BoolOp i op vs) = concat (map leaf_operands vs)"
| "leaf_operands e = [e]"

text \<open>
  The operands of a combination in the words of the claim about boolean conditions: the
  flattening enters a nested combination only when it has the operator \<open>op\<close> of the
  combination that is counted, and a nested combination of the other operator is one unit.
\<close>

fun same_kind_operands :: "boolop \<Rightarrow> expr \<Rightarrow> expr list" where
  "same_kind_operands op (BoolOp i op' vs) =
     (if op' = op then concat (map (same_kind_operands op) vs) else [BoolOp i op' vs])"
| "same_kind_operands op e = [e]"

text \<open>A chain that mixes operator kinds, in the words of the claim about comparisons.\<close>

definition mixes_operators :: "cmpop list \<Rightarrow> bool" where
  "mixes_operators ops = (\<exists>a\<in>set ops. \<exists>b\<in>set ops. a \<noteq> b)"

fun exprs_of :: "node list \<Rightarrow> expr list" where
  "exprs_of [] = []"
| "exprs_of (ExprNode e # ns) = e # exprs_of ns"
| "exprs_of (n # ns) = exprs_of ns"

text \<open>Values for the examples: the limits of a default configuration.\<close>

definition example_constants :: constants where
  "example_constants =
     \<lparr>MAX_CONDITIONS = 4, MAX_COMPARES = 2, MAX_ELIFS = 3, MAX_EXCEPT_CASES = 3\<rparr>"

text \<open>
  \<^verbatim>\<open>
  class A:
      @first
      @second
      def method(self): return
  @overload
  def f(): ...
  def f():
      @a
      @b
      @c
      async def inner(): ...
  if flag:
      def g(): ...
  \<close>
\<close>

definition example_module :: module where
  "example_module = Module
     [ClassDef 1 ''A'' []
        [FunctionDef 2 False ''method'' [''self''] [] [Return 3 None]
           [Name 4 ''first'', Name 5 ''second''] None] [],
      FunctionDef 6 False ''f'' [] [] [OtherStmt 7 []] [Name 8 ''overload''] None,
      FunctionDef 9 False ''f'' [] []
        [FunctionDef 10 True ''inner'' [] [] [OtherStmt 11 []]
           [Name 12 ''a'', Name 13 ''b'', Name 14 ''c''] None] [] None,
      IfNode 15 (Name 16 ''flag'') [FunctionDef 17 False ''g'' [] [] [OtherStmt 18 []] [] None] []]"

text \<open>
  \<^verbatim>\<open>
  match command:
      case 0:
          def a(): ...
      case _ if flag:
          class B: ...
          def c(): ...
  \<close>
\<close>

definition example_match :: module where
  "example_match = Module
     [Match 1 (Name 2 ''command'')
        [MatchCase [OtherExpr 3 []] None
           [FunctionDef 4 False ''a'' [] [] [OtherStmt 5 []] [] None],
         MatchCase [] (Some (Name 6 ''flag''))
           [ClassDef 7 ''B'' [] [OtherStmt 8 []] [],
            FunctionDef 9 False ''c'' [] [] [OtherStmt 10 []] [] None]]]"

text \<open>
  \<^verbatim>\<open>
  try: ...
  except (A, B, C, D): ...
  except E as e: ...
  except (F, G): ...
  except: ...
  \<close>
\<close>

definition example_try :: module where
  "example_try = Module
     [Try 1 False [OtherStmt 2 []]
        [ExceptHandler 3 (Some (Tuple 4 [Name 5 ''A'', Name 6 ''B'', Name 7 ''C'', Name 8 ''D'']))
           None [OtherStmt 9 []],
         ExceptHandler 10 (Some (Name 11 ''E'')) (Some ''e'') [OtherStmt 12 []],
         ExceptHandler 13 (Some (Tuple 14 [Name 15 ''F'', Name 16 ''G''])) None [OtherStmt 17 []],
         ExceptHandler 18 None None [OtherStmt 19 []]]
        [] []]"

section \<open>ClassAttributeVisitor: shadowed class attributes\<close>

text \<open>
  Modelled from the spec: the visitor \<^verbatim>\<open>visitors/ast/classes/attributes.py\<close> and its helpers
  are missing from the sources; only its tests and the violation class
  \<^verbatim>\<open>ShadowedClassAttributeViolation\<close> are there. The definitions below follow the four phases of
  section 4.4 of the specification.

  The statements of one scope: a block's statements and, recursively, those of the nested
  control-flow blocks (conditionals, loops, \<^verbatim>\<open>with\<close> and \<^verbatim>\<open>try\<close> blocks), not entering nested
  function or class declarations.
\<close>

fun scope_stmts :: "stmt \<Rightarrow> stmt list"
  and scope_stmts_handler :: "excepthandler \<Rightarrow> stmt list"
  and scope_stmts_case :: "match_case \<Rightarrow> stmt list" where
  "scope_stmts (IfNode i t b e) =
     IfNode i t b e # concat (map scope_stmts b) @ concat (map scope_stmts e)"
| "scope_stmts (For i t it b e) =
     For i t it b e # concat (map scope_stmts b) @ concat (map scope_stmts e)"
| "scope_stmts (While i t b e) =
     While i t b e # concat (map scope_stmts b) @ concat (map scope_stmts e)"
| "scope_stmts (With i its b) = With i its b # concat (map scope_stmts b)"
| "scope_stmts (Try i st b hs e f) =
     Try i st b hs e f # concat (map scope_stmts b) @ concat (map scope_stmts_handler hs)
       @ concat (map scope_stmts e) @ concat (map scope_stmts f)"
| "scope_stmts (Match i sj cs) = Match i sj cs # concat (map scope_stmts_case cs)"
| "scope_stmts (FunctionDef i a n ps es b ds r) = [FunctionDef i a n ps es b ds r]"
| "scope_stmts (ClassDef i n bs b ds) = [ClassDef i n bs b ds]"
| "scope_stmts (Assign i ts v) = [Assign i ts v]"
| "scope_stmts (AnnAssign i t a v) = [AnnAssign i t a v]"
| "scope_stmts (Return i v) = [Return i v]"
| "scope_stmts (Expr i e) = [Expr i e]"
| "scope_stmts (OtherStmt i es) = [OtherStmt i es]"
| "scope_stmts_handler (ExceptHandler i t n b) = concat (map scope_stmts b)"
| "scope_stmts_case (MatchCase ps g b) = concat (map scope_stmts b)"

definition block_stmts :: "stmt list \<Rightarrow> stmt list" where
  "block_stmts b = concat (map scope_stmts b)"

text \<open>
  Phase 1, class-level bindings. A target that is not a bare name is ignored.
\<close>

fun bare_name :: "expr \<Rightarrow> string list" where
  "bare_name (Name i n) = [n]"
| "bare_name _ = []"

fun bound_with_value :: "stmt \<Rightarrow> string list" where
  "bound_with_value (Assign i ts v) = concat (map bare_name ts)"
| "bound_with_value (AnnAssign i t a (Some v)) = bare_name t"
| "bound_with_value _ = []"

fun bound_bare :: "stmt \<Rightarrow> string list" where
  "bound_bare (AnnAssign i t a None) = bare_name t"
| "bound_bare _ = []"

definition declared_with_value :: "stmt list \<Rightarrow> string list" where
  "declared_with_value body = concat (map bound_with_value (block_stmts body))"

definition declared_bare :: "stmt list \<Rightarrow> string list" where
  "declared_bare body = concat (map bound_bare (block_stmts body))"

text \<open>
  Phase 2, instance-level bindings: in every method of the class (a function declaration
  in the scope of the class body), the assignments whose target is an attribute of the
  method's first declared parameter. A method without parameters assigns nothing.
\<close>

fun instance_target :: "string \<Rightarrow> expr \<Rightarrow> string list" where
  "instance_target self (Attribute i (Name j n) a) = (if n = self then [a] else [])"
| "instance_target self _ = []"

fun instance_assign :: "string \<Rightarrow> stmt \<Rightarrow> string list" where
  "instance_assign self (Assign i ts v) = concat (map (instance_target self) ts)"
| "instance_assign self (AnnAssign i t a (Some v)) = instance_target self t"
| "instance_assign self _ = []"

fun method_assigned :: "stmt \<Rightarrow> string list" where
  "method_assigned (FunctionDef i a n (p # ps) es b ds r) =
     concat (map (instance_assign p) (block_stmts b))"
| "method_assigned _ = []"

definition instance_assigned :: "stmt list \<Rightarrow> string list" where
  "instance_assigned body = concat (map method_assigned (block_stmts body))"

text \<open>
  Phase 3, the exemption. The tests name the recognised decorator: \<^verbatim>\<open>@dataclass\<close>, bare or
  called; any other shape of decorator does not exempt.
\<close>

definition auto_initializer_marker :: string where
  "auto_initializer_marker = ''dataclass''"

fun is_marker :: "expr \<Rightarrow> bool" where
  "is_marker (Name i n) = (n = auto_initializer_marker)"
| "is_marker (Call i (Name j n) as) = (n = auto_initializer_marker)"
| "is_marker _ = False"

definition is_exempt :: "expr list \<Rightarrow> bool" where
  "is_exempt ds = list_ex is_marker ds"

text \<open>
  Phase 4, emission: one violation for every name of \<open>DeclaredWithValue \<inter> InstanceAssigned\<close>,
  with the name as text. The specification leaves the location of the violation open; the
  model records the class declaration.
\<close>

definition shadowed_names :: "stmt list \<Rightarrow> string list" where
  "shadowed_names body =
     remdups (filter (\<lambda>a. a \<in> set (instance_assigned body)) (declared_with_value body))"

fun check_attributes_shadowing :: "stmt \<Rightarrow> violation list" where
  "check_attributes_shadowing (ClassDef i n bs b ds) =
     (if is_exempt ds then []
      else map (\<lambda>a. mk_violation ShadowedClassAttributeViolation (Some i) a None)
             (shadowed_names b))"
| "check_attributes_shadowing _ = []"

fun class_attribute_visit :: "node \<Rightarrow> violation list" where
  "class_attribute_visit (StmtNode c s) = check_attributes_shadowing s"
| "class_attribute_visit _ = []"

definition class_attribute_run :: "module \<Rightarrow> violation list" where
  "class_attribute_run tree = fold (\<lambda>n vs. vs @ class_attribute_visit n) (preorder tree) []"

text \<open>The class declarations of a traversal.\<close>

definition class_defs :: "node list \<Rightarrow> stmt list" where
  "class_defs ns = filter is_ClassDef (map snd (stmts_of ns))"


text \<open>
  The bodies of two classes of the tests, with \<^verbatim>\<open>field1\<close> for both names:
  \<^verbatim>\<open>
  class ClassWithAttrs:              class ClassWithAttrs:
      if some_flag:                      field1: int
          field1 = 0
      def __init__(self) -> None:        def __init__(self) -> None:
          self.field1 = 2                    self.field1 = 2
  \<close>
\<close>

definition init_method :: stmt where
  "init_method = FunctionDef 5 False ''__init__'' [''self''] []
     [Assign 6 [Attribute 7 (Name 8 ''self'') ''field1''] (OtherExpr 9 [])] [] (Some (Name 10 ''None''))"

definition class_attribute_logic :: "stmt list" where
  "class_attribute_logic =
     [IfNode 2 (Name 3 ''some_flag'') [Assign 4 [Name 11 ''field1''] (OtherExpr 12 [])] [],
      init_method]"

definition class_annotation :: "stmt list" where
  "class_annotation = [AnnAssign 2 (Name 3 ''field1'') (Name 4 ''int'') None, init_method]"

(*DEFINITIONS-END*)

section \<open>Properties of the traversal\<close>

lemma fold_append_emit: "fold (\<lambda>n vs. vs @ f n) xs acc = acc @ concat (map f xs)"
  by (induction xs arbitrary: acc) auto

lemma str_examples:
  "str 2 = ''2''" "str 3 = ''3''" "str 4 = ''4''" "str 5 = ''5''" "str 6 = ''6''"
  by (simp_all add: str_def str_nat.simps digit_char_def)

lemma concat_map_exprs_of:
  "concat (map (\<lambda>n. case n of ExprNode e \<Rightarrow> f e | _ \<Rightarrow> []) ns) = concat (map f (exprs_of ns))"
  by (induction ns rule: exprs_of.induct) auto

section \<open>ConditionsVisitor: boolean conditions and comparison chains\<close>

lemma conditions_run_concat:
  "conditions_run k tree = concat (map (conditions_visit k) (preorder tree))"
  by (simp add: conditions_run_def fold_append_emit)

lemma count_conditions_leaves:
  "count_conditions vs = int (length (concat (map leaf_operands vs)))"
  by (induction vs rule: count_conditions.induct) auto

lemma leaf_operands_not_BoolOp: "e \<in> set (leaf_operands x) \<Longrightarrow> \<not> is_BoolOp e"
  by (induction x rule: leaf_operands.induct) auto

lemma same_kind_leaf:
  "list_all (\<lambda>e. \<not> is_BoolOp e) (same_kind_operands op x) \<Longrightarrow>
   same_kind_operands op x = leaf_operands x"
proof (induction op x rule: same_kind_operands.induct)
  case (1 op i op' vs)
  show ?case
  proof (cases "op' = op")
    case True
    have "same_kind_operands op v = leaf_operands v" if "v \<in> set vs" for v
      using 1 True that by (auto simp: list_all_iff)
    then have e: "map (same_kind_operands op) vs = map leaf_operands vs"
      by simp
    show ?thesis
      by (simp only: True same_kind_operands.simps leaf_operands.simps e) simp
  next
    case False
    then show ?thesis
      using 1(2) by simp
  qed
qed simp_all

lemma run_conditions:
  "filter (\<lambda>v. vkind v = TooManyConditionsViolation) (conditions_run k tree) =
     concat (map (check_conditions k) (exprs_of (preorder tree)))"
proof -
  have "filter (\<lambda>v. vkind v = TooManyConditionsViolation) (conditions_visit k n) =
     (case n of ExprNode e \<Rightarrow> check_conditions k e | _ \<Rightarrow> [])" for n
  proof (cases n)
    case (ExprNode e)
    then show ?thesis by (cases e) (auto simp: mk_violation_def Let_def)
  qed auto
  then show ?thesis
    by (simp add: conditions_run_concat filter_concat comp_def concat_map_exprs_of)
qed

lemma run_compares:
  "filter (\<lambda>v. vkind v = TooLongCompareViolation) (conditions_run k tree) =
     concat (map (check_compares k) (exprs_of (preorder tree)))"
proof -
  have "filter (\<lambda>v. vkind v = TooLongCompareViolation) (conditions_visit k n) =
     (case n of ExprNode e \<Rightarrow> check_compares k e | _ \<Rightarrow> [])" for n
  proof (cases n)
    case (ExprNode e)
    then show ?thesis by (cases e) (auto simp: mk_violation_def Let_def)
  qed auto
  then show ?thesis
    by (simp add: conditions_run_concat filter_concat comp_def concat_map_exprs_of)
qed

text \<open>
  C5. In a chained comparison whose operators are all \<open>Eq\<close> or all \<open>NotEq\<close> the
  threshold on the number of operators is \<open>MAX_COMPARES + 1\<close>; in a chain that mixes
  operators it is \<open>MAX_COMPARES\<close>. \<open>_check_compares\<close> adds a violation at the node, with
  the number of operators as text, exactly when that number is above the threshold, and a
  run checks every \<open>Compare\<close> node of the tree. A chain of equalities may therefore be one
  operator longer than a mixed chain.
\<close>

theorem check_compares_threshold:
  assumes uniform: "list_all (\<lambda>op. op = Eq) ops \<or> list_all (\<lambda>op. op = NotEq) ops"
      and mixed: "mixes_operators ops'"
  shows "compare_threshold k ops = MAX_COMPARES k + 1
       \<and> compare_threshold k ops' = MAX_COMPARES k
       \<and> check_compares k (Compare i l ops cs) =
           (if int (length ops) > MAX_COMPARES k + 1
            then [mk_violation TooLongCompareViolation (Some i) (str (int (length ops)))
                    (Some (MAX_COMPARES k + 1))]
            else [])
       \<and> check_compares k (Compare i' l' ops' cs') =
           (if int (length ops') > MAX_COMPARES k
            then [mk_violation TooLongCompareViolation (Some i') (str (int (length ops')))
                    (Some (MAX_COMPARES k))]
            else [])
       \<and> filter (\<lambda>v. vkind v = TooLongCompareViolation) (conditions_run k tree) =
           concat (map (check_compares k) (exprs_of (preorder tree)))"
proof -
  have u: "compare_threshold k ops = MAX_COMPARES k + 1"
    using uniform by (auto simp: compare_threshold_def)
  have "\<not> list_all (\<lambda>op. op = Eq) ops'" "\<not> list_all (\<lambda>op. op = NotEq) ops'"
    using mixed by (auto simp: mixes_operators_def list_all_iff; metis)+
  then have m: "compare_threshold k ops' = MAX_COMPARES k"
    by (simp add: compare_threshold_def)
  show ?thesis
    by (simp add: u m run_compares)
qed

theorem check_compares_threshold_witness:
  "compare_threshold example_constants [Eq, Eq, Eq] = 3
   \<and> compare_threshold example_constants [Eq, Lt, Eq] = 2
   \<and> mixes_operators [Eq, Lt, Eq]
   \<and> check_compares example_constants
        (Compare 1 (Name 2 ''a'') [Eq, Eq, Eq] [Name 3 ''b'', Name 4 ''c'', Name 5 ''d'']) = []
   \<and> check_compares example_constants
        (Compare 1 (Name 2 ''a'') [Eq, Lt, Eq] [Name 3 ''b'', Name 4 ''c'', Name 5 ''d'']) =
        [mk_violation TooLongCompareViolation (Some 1) ''3'' (Some 2)]"
proof -
  have m: "mixes_operators [Eq, Lt, Eq]"
    unfolding mixes_operators_def by auto
  have u: "list_all (\<lambda>op. op = Eq) [Eq, Eq, Eq] \<or> list_all (\<lambda>op. op = NotEq) [Eq, Eq, Eq]"
    by simp
  have s: "str 3 = ''3''"
    by (simp add: str_def str_nat.simps digit_char_def)
  have c: "MAX_COMPARES example_constants = 2"
    by (simp add: example_constants_def)
  show ?thesis
    using check_compares_threshold [OF u m, of example_constants 1 "Name 2 ''a''"
        "[Name 3 ''b'', Name 4 ''c'', Name 5 ''d'']" 1 "Name 2 ''a''"
        "[Name 3 ''b'', Name 4 ''c'', Name 5 ''d'']"] m s
    by (simp only: c) simp
qed

text \<open>
  C6. \<open>_count_conditions\<close> counts the operands a boolean combination flattens to: it
  recurses into every operand that is itself a \<open>BoolOp\<close>, whatever its operator, and
  counts every other operand as one, whatever it holds. The count is that of the claim,
  which enters nested combinations of the same operator only, whenever no combination of
  the other operator is met on the way. \<open>_check_conditions\<close> adds a violation at the node,
  with the count as text, exactly when the count is above \<open>MAX_CONDITIONS\<close>, and a run
  checks every \<open>BoolOp\<close> node of the tree.
\<close>

theorem count_conditions_flattened_leaves:
  "count_conditions vs = int (length (leaf_operands (BoolOp i op vs)))
   \<and> (\<forall>e \<in> set (leaf_operands (BoolOp i op vs)). \<not> is_BoolOp e)
   \<and> (list_all (\<lambda>e. \<not> is_BoolOp e) (same_kind_operands op (BoolOp i op vs)) \<longrightarrow>
        count_conditions vs = int (length (same_kind_operands op (BoolOp i op vs))))
   \<and> check_conditions k (BoolOp i op vs) =
       (if int (length (leaf_operands (BoolOp i op vs))) > MAX_CONDITIONS k
        then [mk_violation TooManyConditionsViolation (Some i)
                (str (int (length (leaf_operands (BoolOp i op vs))))) (Some (MAX_CONDITIONS k))]
        else [])
   \<and> filter (\<lambda>v. vkind v = TooManyConditionsViolation) (conditions_run k tree) =
       concat (map (check_conditions k) (exprs_of (preorder tree)))"
proof -
  have a: "count_conditions vs = int (length (leaf_operands (BoolOp i op vs)))"
    by (simp add: count_conditions_leaves)
  have b: "\<forall>e \<in> set (leaf_operands (BoolOp i op vs)). \<not> is_BoolOp e"
    using leaf_operands_not_BoolOp [of _ "BoolOp i op vs"] by blast
  have c: "list_all (\<lambda>e. \<not> is_BoolOp e) (same_kind_operands op (BoolOp i op vs)) \<longrightarrow>
        count_conditions vs = int (length (same_kind_operands op (BoolOp i op vs)))"
    using same_kind_leaf [of op "BoolOp i op vs"] a by auto
  have d: "check_conditions k (BoolOp i op vs) =
       (if int (length (leaf_operands (BoolOp i op vs))) > MAX_CONDITIONS k
        then [mk_violation TooManyConditionsViolation (Some i)
                (str (int (length (leaf_operands (BoolOp i op vs))))) (Some (MAX_CONDITIONS k))]
        else [])"
    by (simp add: count_conditions_leaves Let_def)
  show ?thesis
    using a b c d run_conditions [of k tree] by (intro conjI)
qed

theorem count_conditions_flattened_leaves_witness:
  "count_conditions
     [Name 2 ''a'', BoolOp 3 Or [Name 4 ''b'', Name 5 ''c''],
      OtherExpr 6 [BoolOp 7 And [Name 8 ''d'', Name 9 ''e'']],
      BoolOp 10 And [Name 11 ''f'', Name 12 ''g'']] = 6
   \<and> leaf_operands (BoolOp 1 And
     [Name 2 ''a'', BoolOp 3 Or [Name 4 ''b'', Name 5 ''c''],
      OtherExpr 6 [BoolOp 7 And [Name 8 ''d'', Name 9 ''e'']],
      BoolOp 10 And [Name 11 ''f'', Name 12 ''g'']]) =
     [Name 2 ''a'', Name 4 ''b'', Name 5 ''c'',
      OtherExpr 6 [BoolOp 7 And [Name 8 ''d'', Name 9 ''e'']], Name 11 ''f'', Name 12 ''g'']
   \<and> \<not> is_BoolOp (OtherExpr 6 [BoolOp 7 And [Name 8 ''d'', Name 9 ''e'']])
   \<and> check_conditions example_constants (BoolOp 1 And
     [Name 2 ''a'', BoolOp 3 Or [Name 4 ''b'', Name 5 ''c''],
      OtherExpr 6 [BoolOp 7 And [Name 8 ''d'', Name 9 ''e'']],
      BoolOp 10 And [Name 11 ''f'', Name 12 ''g'']]) =
     [mk_violation TooManyConditionsViolation (Some 1) ''6'' (Some 4)]
   \<and> list_all (\<lambda>e. \<not> is_BoolOp e)
        (same_kind_operands Or (BoolOp 1 Or
           [Name 2 ''a'', BoolOp 3 Or [Name 4 ''b'', Name 5 ''c''], Name 6 ''d'']))
   \<and> count_conditions [Name 2 ''a'', BoolOp 3 Or [Name 4 ''b'', Name 5 ''c''], Name 6 ''d''] = 4
   \<and> length (same_kind_operands Or (BoolOp 1 Or
           [Name 2 ''a'', BoolOp 3 Or [Name 4 ''b'', Name 5 ''c''], Name 6 ''d''])) = 4"
proof -
  let ?vs = "[Name 2 ''a'', BoolOp 3 Or [Name 4 ''b'', Name 5 ''c''],
      OtherExpr 6 [BoolOp 7 And [Name 8 ''d'', Name 9 ''e'']],
      BoolOp 10 And [Name 11 ''f'', Name 12 ''g'']]"
  let ?ws = "[Name 2 ''a'', BoolOp 3 Or [Name 4 ''b'', Name 5 ''c''], Name 6 ''d'']"
  have l: "leaf_operands (BoolOp 1 And ?vs) =
     [Name 2 ''a'', Name 4 ''b'', Name 5 ''c'',
      OtherExpr 6 [BoolOp 7 And [Name 8 ''d'', Name 9 ''e'']], Name 11 ''f'', Name 12 ''g'']"
    by simp
  have s: "str 6 = ''6''"
    by (simp add: str_def str_nat.simps digit_char_def)
  have c: "MAX_CONDITIONS example_constants = 4"
    by (simp add: example_constants_def)
  have h: "list_all (\<lambda>e. \<not> is_BoolOp e) (same_kind_operands Or (BoolOp 1 Or ?ws))"
    by simp
  have n: "length (same_kind_operands Or (BoolOp 1 Or ?ws)) = 4"
    by simp
  have first: "count_conditions ?vs = 6
    \<and> check_conditions example_constants (BoolOp 1 And ?vs) =
       [mk_violation TooManyConditionsViolation (Some 1) ''6'' (Some 4)]"
    using count_conditions_flattened_leaves [of ?vs 1 And example_constants "Module []"] s
    by (simp only: l c) simp
  have second: "count_conditions ?ws = 4"
    using count_conditions_flattened_leaves [of ?ws 1 Or example_constants "Module []"] h
    by (simp only: n) simp
  show ?thesis
    using first second l h n by simp
qed

text \<open>
  The claim as it stands, with nested combinations of the other operator counted as units,
  fails at \<^verbatim>\<open>a and (b or c)\<close>: it gives two operands, \<open>_count_conditions\<close> returns three,
  and with a limit of two the violation is added where the claim has none.
\<close>

theorem count_conditions_enters_other_kind:
  "count_conditions [Name 2 ''a'', BoolOp 3 Or [Name 4 ''b'', Name 5 ''c'']] = 3
   \<and> same_kind_operands And
        (BoolOp 1 And [Name 2 ''a'', BoolOp 3 Or [Name 4 ''b'', Name 5 ''c'']]) =
      [Name 2 ''a'', BoolOp 3 Or [Name 4 ''b'', Name 5 ''c'']]
   \<and> count_conditions [Name 2 ''a'', BoolOp 3 Or [Name 4 ''b'', Name 5 ''c'']] \<noteq>
      int (length (same_kind_operands And
        (BoolOp 1 And [Name 2 ''a'', BoolOp 3 Or [Name 4 ''b'', Name 5 ''c'']])))
   \<and> check_conditions \<lparr>MAX_CONDITIONS = 2, MAX_COMPARES = 2, MAX_ELIFS = 3, MAX_EXCEPT_CASES = 3\<rparr>
        (BoolOp 1 And [Name 2 ''a'', BoolOp 3 Or [Name 4 ''b'', Name 5 ''c'']]) =
      [mk_violation TooManyConditionsViolation (Some 1) ''3'' (Some 2)]"
  by (simp add: str_examples)

lemma stmts_of_append: "stmts_of (xs @ ys) = stmts_of xs @ stmts_of ys"
  by (induction xs rule: stmts_of.induct) auto

lemma stmts_of_concat: "stmts_of (concat xss) = concat (map stmts_of xss)"
  by (induction xss) (auto simp: stmts_of_append)

lemma stmts_of_map_ExprNode: "stmts_of (map ExprNode xs) = []"
  by (induction xs) auto

lemma stmts_of_exprs: "stmts_of (preorder_exprs es) = []"
  by (simp add: preorder_exprs_def stmts_of_map_ExprNode)

lemma stmts_of_opt: "stmts_of (preorder_opt r) = []"
  by (cases r) (auto simp: stmts_of_exprs)

lemmas stmts_of_simps = stmts_of_append stmts_of_concat stmts_of_exprs stmts_of_opt

section \<open>ModuleMembersVisitor: members and decorators\<close>

lemma members_fold:
  "fold (visit_module_members hov opts) ns st =
     \<lparr>public_items_count = public_items_count st +
        int (length (filter (\<lambda>s. \<not> (is_FunctionDef s \<and> hov s)) (module_scope_decls ns))),
      violations = violations st @
        concat (map (\<lambda>(c, s). decorators_violation opts s) (stmts_of ns))\<rparr>"
proof (induction ns arbitrary: st)
  case Nil
  then show ?case by (simp add: module_scope_decls_def)
next
  case (Cons n ns)
  show ?case
  proof (cases n)
    case (StmtNode c s)
    then show ?thesis
      by (simp add: Cons.IH check_members_count_def check_decorators_count_def Let_def
          module_scope_decls_def decorators_violation_def)
  qed (simp_all add: Cons.IH module_scope_decls_def)
qed

lemma no_module_ctx:
  "c \<noteq> InModule \<Longrightarrow> (InModule, s) \<notin> set (stmts_of (preorder_stmt c x))"
  "c \<noteq> InModule \<Longrightarrow> (InModule, s) \<notin> set (stmts_of (preorder_handler c h))"
  "c \<noteq> InModule \<Longrightarrow> (InModule, s) \<notin> set (stmts_of (preorder_case c m))"
  by (induction c x and c h and c m rule: preorder_stmt_preorder_handler_preorder_case.induct)
     (fastforce simp: stmts_of_simps)+

lemma module_scope_decls_append:
  "module_scope_decls (xs @ ys) = module_scope_decls xs @ module_scope_decls ys"
  by (simp add: module_scope_decls_def stmts_of_append)

lemma module_scope_decls_concat:
  "module_scope_decls (concat xss) = concat (map module_scope_decls xss)"
  by (induction xss) (auto simp: module_scope_decls_append, simp add: module_scope_decls_def)

lemma module_scope_decls_inner:
  "c \<noteq> InModule \<Longrightarrow> module_scope_decls (preorder_stmt c x) = []"
  using no_module_ctx(1) [of c _ x]
  by (auto simp: module_scope_decls_def filter_empty_conv)

lemma module_scope_decls_exprs [simp]:
  "module_scope_decls (preorder_exprs es) = []" "module_scope_decls (preorder_opt r) = []"
  by (simp_all add: module_scope_decls_def stmts_of_simps)

lemma module_scope_decls_Cons:
  "module_scope_decls (StmtNode c s # ns) =
     (if (is_ClassDef s \<or> is_FunctionDef s) \<and> c = InModule then [s] else []) @ module_scope_decls ns"
  "module_scope_decls (HandlerNode h # ns) = module_scope_decls ns"
  "module_scope_decls (CaseNode m # ns) = module_scope_decls ns"
  by (simp_all add: module_scope_decls_def)

lemma module_level_preorder:
  "module_scope_decls (preorder_stmt InModule x) = module_level x"
  "module_scope_decls (preorder_handler InModule h) = module_level_handler h"
  "module_scope_decls (preorder_case InModule m) = module_level_case m"
  by (induction x and h and m rule: module_level_module_level_handler_module_level_case.induct)
     (simp_all add: module_scope_decls_Cons module_scope_decls_append module_scope_decls_concat
        module_scope_decls_inner cong: map_cong)

lemma module_members_preorder: "module_scope_decls (preorder tree) = module_members tree"
  by (cases tree)
     (simp add: preorder_stmts_def module_scope_decls_concat module_level_preorder comp_def)


lemma members_traverse_eq:
  "members_traverse hov opts tree =
     \<lparr>public_items_count =
        int (length (filter (\<lambda>s. \<not> (is_FunctionDef s \<and> hov s)) (module_members tree))),
      violations = concat (map (\<lambda>(c, s). decorators_violation opts s) (stmts_of (preorder tree)))\<rparr>"
  by (simp add: members_traverse_def members_fold module_members_preorder)

lemma decorators_violation_kind:
  "v \<in> set (decorators_violation opts s) \<Longrightarrow> vkind v = TooManyDecoratorsViolation"
  by (auto simp: decorators_violation_def mk_violation_def split: if_splits)

lemma filter_decorators_all:
  "filter (\<lambda>v. vkind v = TooManyDecoratorsViolation)
     (concat (map (\<lambda>(c, s). decorators_violation opts s) xs)) =
   concat (map (\<lambda>(c, s). decorators_violation opts s) xs)"
  by (rule filter_True) (auto dest: decorators_violation_kind)

lemma filter_decorators_none:
  "filter (\<lambda>v. vkind v = TooManyModuleMembersViolation)
     (concat (map (\<lambda>(c, s). decorators_violation opts s) xs)) = []"
  by (auto simp: filter_empty_conv dest: decorators_violation_kind)

text \<open>
  C7. The counter of the module-members rule ends at the number of class and function
  declarations that the module owns (met from the module body without entering a class or
  function body, through conditionals, loops, \<^verbatim>\<open>with\<close>, \<^verbatim>\<open>try\<close> and \<^verbatim>\<open>match\<close> blocks),
  function declarations with the overload decorator left out. No
  module-members violation is added during the traversal; \<open>_post_visit\<close> adds exactly one,
  without a node, when the counter is above \<open>max_module_members\<close>, and none otherwise.
\<close>

theorem module_members_counted_at_module_scope:
  "public_items_count (members_traverse hov opts tree) =
     int (length (filter (\<lambda>s. \<not> (is_FunctionDef s \<and> hov s)) (module_members tree)))
   \<and> filter (\<lambda>v. vkind v = TooManyModuleMembersViolation)
       (violations (members_traverse hov opts tree)) = []
   \<and> filter (\<lambda>v. vkind v = TooManyModuleMembersViolation) (module_members_run hov opts tree) =
       (if public_items_count (members_traverse hov opts tree) > max_module_members opts
        then [mk_violation TooManyModuleMembersViolation None
                (str (public_items_count (members_traverse hov opts tree)))
                (Some (max_module_members opts))]
        else [])"
  by (simp add: module_members_run_def members_post_visit_def members_traverse_eq
      filter_decorators_none mk_violation_def)

text \<open>
  C10. \<open>_check_decorators_count\<close> runs for every class and function declaration of the
  traversal, whatever its context: the decorator violations of a run are, in traversal
  order and already before \<open>_post_visit\<close>, one for each declaration whose decorator list is
  longer than \<open>max_decorators\<close>, anchored at the declaration. Only the counter of module
  members is restricted to declarations whose context is the module.
\<close>

theorem decorators_checked_in_every_scope:
  "violations (members_traverse hov opts tree) =
     concat (map (\<lambda>(c, s). decorators_violation opts s) (stmts_of (preorder tree)))
   \<and> filter (\<lambda>v. vkind v = TooManyDecoratorsViolation) (module_members_run hov opts tree) =
     concat (map (\<lambda>(c, s). decorators_violation opts s) (stmts_of (preorder tree)))
   \<and> decorators_violation opts s =
     (if (is_ClassDef s \<or> is_FunctionDef s) \<and> int (length (decorator_list s)) > max_decorators opts
      then [mk_violation TooManyDecoratorsViolation (Some (nid s))
              (str (int (length (decorator_list s)))) (Some (max_decorators opts))]
      else [])
   \<and> public_items_count (members_traverse hov opts tree) =
     int (length (filter (\<lambda>s. \<not> (is_FunctionDef s \<and> hov s))
       (module_scope_decls (preorder tree))))"
proof -
  have "filter (\<lambda>v. vkind v = TooManyDecoratorsViolation) (module_members_run hov opts tree) =
     concat (map (\<lambda>(c, s). decorators_violation opts s) (stmts_of (preorder tree)))"
    by (simp add: module_members_run_def members_post_visit_def members_traverse_eq
        filter_decorators_all mk_violation_def)
  then show ?thesis
    by (simp add: members_traverse_eq module_members_preorder decorators_violation_def)
qed

section \<open>TryExceptVisitor: exceptions of one handler\<close>

lemma try_except_run_concat:
  "try_except_run k opts tree = concat (map (try_except_visit k opts) (preorder tree))"
  by (simp add: try_except_run_def fold_append_emit)

lemma concat_map_stmts_of:
  "concat (map (\<lambda>n. case n of StmtNode c s \<Rightarrow> f c s | _ \<Rightarrow> []) ns) =
     concat (map (\<lambda>(c, s). f c s) (stmts_of ns))"
  by (induction ns rule: stmts_of.induct) auto

lemma check_handler_exceptions_kind:
  "v \<in> set (check_handler_exceptions opts h) \<Longrightarrow> vkind v = TooManyExceptExceptionsViolation"
  by (induction opts h rule: check_handler_exceptions.induct)
     (auto simp: mk_violation_def split: if_splits)

lemma run_except_exceptions:
  "filter (\<lambda>v. vkind v = TooManyExceptExceptionsViolation) (try_except_run k opts tree) =
     concat (map (\<lambda>(c, s). concat (map (check_handler_exceptions opts) (handlers s)))
       (stmts_of (preorder tree)))"
proof -
  have "filter (\<lambda>v. vkind v = TooManyExceptExceptionsViolation) (try_except_visit k opts n) =
     (case n of StmtNode c s \<Rightarrow> concat (map (check_handler_exceptions opts) (handlers s))
      | _ \<Rightarrow> [])" for n
  proof (cases n)
    case (StmtNode c s)
    have "filter (\<lambda>v. vkind v = TooManyExceptExceptionsViolation)
            (concat (map (check_handler_exceptions opts) hs)) =
          concat (map (check_handler_exceptions opts) hs)" for hs
      by (rule filter_True) (auto dest: check_handler_exceptions_kind)
    with StmtNode show ?thesis
      by (cases s) (simp_all add: mk_violation_def)
  qed auto
  then show ?thesis
    by (simp add: try_except_run_concat filter_concat comp_def concat_map_stmts_of)
qed

text \<open>
  C8. For every handler of every \<open>Try\<close> node of the tree, \<open>_check_exceptions_count\<close>
  adds a violation anchored at the handler, with the number of elements as text, exactly
  when the handler's type is a \<open>Tuple\<close> with more than \<open>max_except_exceptions\<close> elements.
  A handler without a type, or with a type that is not a tuple, adds nothing; the check has
  no failing branch (\<open>isinstance\<close> guards the read of \<open>elts\<close>).
\<close>

theorem except_exceptions_per_handler:
  "filter (\<lambda>v. vkind v = TooManyExceptExceptionsViolation) (try_except_run k opts tree) =
     concat (map (\<lambda>(c, s). concat (map (check_handler_exceptions opts) (handlers s)))
       (stmts_of (preorder tree)))
   \<and> (check_handler_exceptions opts h \<noteq> [] \<longleftrightarrow>
        (\<exists>ti elts. handler_type h = Some (Tuple ti elts)
           \<and> int (length elts) > max_except_exceptions opts))
   \<and> (\<forall>ti elts. handler_type h = Some (Tuple ti elts)
           \<and> int (length elts) > max_except_exceptions opts \<longrightarrow>
        check_handler_exceptions opts h =
          [mk_violation TooManyExceptExceptionsViolation (Some (handler_id h))
             (str (int (length elts))) (Some (max_except_exceptions opts))])
   \<and> (handler_type h = None \<or> (\<exists>e. handler_type h = Some e \<and> \<not> is_Tuple e) \<longrightarrow>
        check_handler_exceptions opts h = [])"
proof -
  have "check_handler_exceptions opts h \<noteq> [] \<longleftrightarrow>
        (\<exists>ti elts. handler_type h = Some (Tuple ti elts)
           \<and> int (length elts) > max_except_exceptions opts)"
    by (induction opts h rule: check_handler_exceptions.induct) auto
  moreover have "\<forall>ti elts. handler_type h = Some (Tuple ti elts)
           \<and> int (length elts) > max_except_exceptions opts \<longrightarrow>
        check_handler_exceptions opts h =
          [mk_violation TooManyExceptExceptionsViolation (Some (handler_id h))
             (str (int (length elts))) (Some (max_except_exceptions opts))]"
    by (induction opts h rule: check_handler_exceptions.induct) auto
  moreover have "handler_type h = None \<or> (\<exists>e. handler_type h = Some e \<and> \<not> is_Tuple e) \<longrightarrow>
        check_handler_exceptions opts h = []"
    by (induction opts h rule: check_handler_exceptions.induct) auto
  ultimately show ?thesis
    using run_except_exceptions by blast
qed


theorem module_members_counted_at_module_scope_witness:
  "public_items_count (members_traverse example_has_overload example_options example_module) = 3
   \<and> filter (\<lambda>v. vkind v = TooManyModuleMembersViolation)
        (module_members_run example_has_overload example_options example_module) =
      [mk_violation TooManyModuleMembersViolation None ''3'' (Some 2)]
   \<and> public_items_count (members_traverse example_has_overload example_options example_match) = 3
   \<and> filter (\<lambda>v. vkind v = TooManyModuleMembersViolation)
        (module_members_run example_has_overload example_options example_match) =
      [mk_violation TooManyModuleMembersViolation None ''3'' (Some 2)]"
proof -
  have m: "length (filter (\<lambda>s. \<not> (is_FunctionDef s \<and> example_has_overload s))
             (module_members example_module)) = 3"
    by (simp add: example_module_def example_has_overload_def)
  have m': "length (filter (\<lambda>s. \<not> (is_FunctionDef s \<and> example_has_overload s))
             (module_members example_match)) = 3"
    by (simp add: example_match_def example_has_overload_def)
  have o: "max_module_members example_options = 2"
    by (simp add: example_options_def)
  have a: "public_items_count (members_traverse example_has_overload example_options example_module) = 3
   \<and> filter (\<lambda>v. vkind v = TooManyModuleMembersViolation)
        (module_members_run example_has_overload example_options example_module) =
      [mk_violation TooManyModuleMembersViolation None ''3'' (Some 2)]"
    using module_members_counted_at_module_scope
      [of example_has_overload example_options example_module]
    by (simp only: m o) (simp add: str_examples)
  have b: "public_items_count (members_traverse example_has_overload example_options example_match) = 3
   \<and> filter (\<lambda>v. vkind v = TooManyModuleMembersViolation)
        (module_members_run example_has_overload example_options example_match) =
      [mk_violation TooManyModuleMembersViolation None ''3'' (Some 2)]"
    using module_members_counted_at_module_scope
      [of example_has_overload example_options example_match]
    by (simp only: m' o) (simp add: str_examples)
  show ?thesis
    using a b by simp
qed

theorem decorators_checked_in_every_scope_witness:
  "filter (\<lambda>v. vkind v = TooManyDecoratorsViolation)
     (module_members_run example_has_overload example_options example_module) =
   [mk_violation TooManyDecoratorsViolation (Some 2) ''2'' (Some 1),
    mk_violation TooManyDecoratorsViolation (Some 10) ''3'' (Some 1)]
   \<and> module_scope_decls (preorder example_module) =
   [ClassDef 1 ''A'' []
        [FunctionDef 2 False ''method'' [''self''] [] [Return 3 None]
           [Name 4 ''first'', Name 5 ''second''] None] [],
      FunctionDef 6 False ''f'' [] [] [OtherStmt 7 []] [Name 8 ''overload''] None,
      FunctionDef 9 False ''f'' [] []
        [FunctionDef 10 True ''inner'' [] [] [OtherStmt 11 []]
           [Name 12 ''a'', Name 13 ''b'', Name 14 ''c''] None] [] None,
      FunctionDef 17 False ''g'' [] [] [OtherStmt 18 []] [] None]"
proof -
  have p: "stmts_of (preorder example_module) =
    [(InModule, ClassDef 1 ''A'' []
        [FunctionDef 2 False ''method'' [''self''] [] [Return 3 None]
           [Name 4 ''first'', Name 5 ''second''] None] []),
     (InClass 1, FunctionDef 2 False ''method'' [''self''] [] [Return 3 None]
           [Name 4 ''first'', Name 5 ''second''] None),
     (InFunction 2, Return 3 None),
     (InModule, FunctionDef 6 False ''f'' [] [] [OtherStmt 7 []] [Name 8 ''overload''] None),
     (InFunction 6, OtherStmt 7 []),
     (InModule, FunctionDef 9 False ''f'' [] []
        [FunctionDef 10 True ''inner'' [] [] [OtherStmt 11 []]
           [Name 12 ''a'', Name 13 ''b'', Name 14 ''c''] None] [] None),
     (InFunction 9, FunctionDef 10 True ''inner'' [] [] [OtherStmt 11 []]
           [Name 12 ''a'', Name 13 ''b'', Name 14 ''c''] None),
     (InFunction 10, OtherStmt 11 []),
     (InModule, IfNode 15 (Name 16 ''flag'')
        [FunctionDef 17 False ''g'' [] [] [OtherStmt 18 []] [] None] []),
     (InModule, FunctionDef 17 False ''g'' [] [] [OtherStmt 18 []] [] None),
     (InFunction 17, OtherStmt 18 [])]"
    by (simp add: example_module_def preorder_stmts_def preorder_exprs_def)
  have o: "max_decorators example_options = 1"
    by (simp add: example_options_def)
  show ?thesis
    using decorators_checked_in_every_scope
      [of example_has_overload example_options example_module]
    by (simp add: p o decorators_violation_def str_examples module_scope_decls_def)
qed

theorem except_exceptions_per_handler_witness:
  "filter (\<lambda>v. vkind v = TooManyExceptExceptionsViolation)
     (try_except_run example_constants example_options example_try) =
   [mk_violation TooManyExceptExceptionsViolation (Some 3) ''4'' (Some 3)]
   \<and> check_handler_exceptions example_options (ExceptHandler 18 None None [OtherStmt 19 []]) = []
   \<and> check_handler_exceptions example_options
        (ExceptHandler 10 (Some (Name 11 ''E'')) (Some ''e'') [OtherStmt 12 []]) = []"
proof -
  have p: "stmts_of (preorder example_try) =
    [(InModule, Try 1 False [OtherStmt 2 []]
        [ExceptHandler 3 (Some (Tuple 4 [Name 5 ''A'', Name 6 ''B'', Name 7 ''C'', Name 8 ''D'']))
           None [OtherStmt 9 []],
         ExceptHandler 10 (Some (Name 11 ''E'')) (Some ''e'') [OtherStmt 12 []],
         ExceptHandler 13 (Some (Tuple 14 [Name 15 ''F'', Name 16 ''G''])) None [OtherStmt 17 []],
         ExceptHandler 18 None None [OtherStmt 19 []]]
        [] []),
     (InModule, OtherStmt 2 []), (InModule, OtherStmt 9 []), (InModule, OtherStmt 12 []),
     (InModule, OtherStmt 17 []), (InModule, OtherStmt 19 [])]"
    by (simp add: example_try_def preorder_stmts_def preorder_exprs_def)
  have o: "max_except_exceptions example_options = 3"
    by (simp add: example_options_def)
  show ?thesis
    using except_exceptions_per_handler
      [of example_constants example_options example_try
          "ExceptHandler 18 None None [OtherStmt 19 []]"]
      except_exceptions_per_handler
      [of example_constants example_options example_try
          "ExceptHandler 10 (Some (Name 11 ''E'')) (Some ''e'') [OtherStmt 12 []]"]
    by (simp add: p o str_examples)
qed

section \<open>ClassAttributeVisitor: the shadowing rule\<close>

lemma class_attribute_run_concat:
  "class_attribute_run tree = concat (map check_attributes_shadowing (map snd (stmts_of (preorder tree))))"
proof -
  have "concat (map class_attribute_visit ns) = concat (map check_attributes_shadowing (map snd (stmts_of ns)))" for ns
    by (induction ns rule: stmts_of.induct) auto
  then show ?thesis
    by (simp add: class_attribute_run_def fold_append_emit)
qed

lemma class_attribute_run_classes:
  "class_attribute_run tree = concat (map check_attributes_shadowing (class_defs (preorder tree)))"
proof -
  have "concat (map check_attributes_shadowing xs) = concat (map check_attributes_shadowing (filter is_ClassDef xs))" for xs
  proof (induction xs)
    case (Cons x xs)
    then show ?case by (cases x) auto
  qed simp
  then show ?thesis
    unfolding class_attribute_run_concat class_defs_def by blast
qed

lemma check_attributes_shadowing_node:
  "v \<in> set (check_attributes_shadowing s) \<Longrightarrow> vnode v = Some (nid s)"
  by (cases s) (auto simp: mk_violation_def split: if_splits)

lemma filter_key_other:
  assumes "\<And>y v. v \<in> set (g y) \<Longrightarrow> key v = f y" and "k \<notin> f ` set ys"
  shows "filter (\<lambda>v. key v = k \<and> P v) (concat (map g ys)) = []"
proof -
  have "key v \<noteq> k" if "v \<in> set (concat (map g ys))" for v
  proof -
    from that obtain y where y: "y \<in> set ys" "v \<in> set (g y)" by auto
    then have "key v = f y" using assms(1) by blast
    with y assms(2) show ?thesis by force
  qed
  then show ?thesis by (auto simp: filter_empty_conv)
qed

lemma filter_concat_distinct_key:
  assumes "distinct (map f xs)" and "x \<in> set xs"
      and "\<And>y v. v \<in> set (g y) \<Longrightarrow> key v = f y"
  shows "filter (\<lambda>v. key v = f x \<and> P v) (concat (map g xs)) = filter P (g x)"
  using assms(1,2)
proof (induction xs)
  case Nil
  then show ?case by simp
next
  case (Cons y ys)
  show ?case
  proof (cases "y = x")
    case True
    then have "f x \<notin> f ` set ys" using Cons.prems by auto
    then have "filter (\<lambda>v. key v = f x \<and> P v) (concat (map g ys)) = []"
      using assms(3) by (rule filter_key_other [rotated])
    moreover have "filter (\<lambda>v. key v = f x \<and> P v) (g x) = filter P (g x)"
      using assms(3) by (auto intro: filter_cong)
    ultimately show ?thesis using True by simp
  next
    case False
    then have x: "x \<in> set ys" and "f y \<noteq> f x" using Cons.prems by auto
    then have "filter (\<lambda>v. key v = f x \<and> P v) (g y) = []"
      using assms(3) by (auto simp: filter_empty_conv)
    then show ?thesis using Cons x by simp
  qed
qed

lemma run_at_class:
  assumes "distinct (map nid (class_defs (preorder tree)))"
      and "cls \<in> set (class_defs (preorder tree))"
  shows "filter (\<lambda>v. vnode v = Some (nid cls) \<and> P v) (class_attribute_run tree) =
         filter P (check_attributes_shadowing cls)"
proof -
  have d: "distinct (map (\<lambda>s. Some (nid s)) (class_defs (preorder tree)))"
    using assms(1) by (simp add: distinct_map inj_on_def)
  show ?thesis
    unfolding class_attribute_run_classes
    by (rule filter_concat_distinct_key [OF d assms(2)]) (rule check_attributes_shadowing_node)
qed

lemma filter_eq_remdups:
  "a \<in> set xs \<Longrightarrow> filter (\<lambda>x. x = a) (remdups xs) = [a]"
proof (induction xs)
  case (Cons x xs)
  then show ?case by (auto simp: filter_empty_conv)
qed simp

lemma shadowed_once:
  assumes "a \<in> set (declared_with_value b)" "a \<in> set (instance_assigned b)" "\<not> is_exempt ds"
  shows "filter (\<lambda>v. vtext v = a) (check_attributes_shadowing (ClassDef i n bs b ds)) =
         [mk_violation ShadowedClassAttributeViolation (Some i) a None]"
proof -
  have "a \<in> set (filter (\<lambda>a. a \<in> set (instance_assigned b)) (declared_with_value b))"
    using assms by simp
  then have "filter (\<lambda>x. x = a) (shadowed_names b) = [a]"
    unfolding shadowed_names_def by (rule filter_eq_remdups)
  moreover have "filter (\<lambda>v. vtext v = a)
        (map (\<lambda>a. mk_violation ShadowedClassAttributeViolation (Some i) a None) xs) =
      map (\<lambda>a. mk_violation ShadowedClassAttributeViolation (Some i) a None)
        (filter (\<lambda>x. x = a) xs)" for xs
    by (induction xs) (auto simp: mk_violation_def)
  ultimately show ?thesis using assms(3) by simp
qed

text \<open>
  C1. For every class declaration of a tree: a name that the class body binds with a value
  (plain or annotated assignment) and that a method of the class assigns as an attribute of
  its first parameter gets, when no decorator of the class is the recognised one, exactly
  one shadowed-class-attribute violation from the run for that class, with the name as its
  text. Node numbers of the class declarations of the tree are distinct: they stand for the
  identity of the nodes.
\<close>

theorem shadowed_attribute_reported_once:
  assumes "distinct (map nid (class_defs (preorder tree)))"
      and "ClassDef i n bs b ds \<in> set (class_defs (preorder tree))"
      and "a \<in> set (declared_with_value b)"
      and "a \<in> set (instance_assigned b)"
      and "\<not> is_exempt ds"
  shows "filter (\<lambda>v. vnode v = Some i \<and> vtext v = a) (class_attribute_run tree) =
           [mk_violation ShadowedClassAttributeViolation (Some i) a None]
       \<and> filter (\<lambda>v. vtext v = a) (check_attributes_shadowing (ClassDef i n bs b ds)) =
           [mk_violation ShadowedClassAttributeViolation (Some i) a None]"
  using run_at_class [OF assms(1,2), of "\<lambda>v. vtext v = a"] shadowed_once [OF assms(3,4,5)]
  by simp


lemma class_defs_single: "class_defs (preorder (Module [ClassDef i n bs b ds])) \<noteq> [] \<and>
   hd (class_defs (preorder (Module [ClassDef i n bs b ds]))) = ClassDef i n bs b ds"
  by (simp add: class_defs_def preorder_stmts_def)






text \<open>
  C3. A name that the class body binds only by an annotation without a value is never
  the text of a violation for that class, also when a method assigns it on its first
  parameter.
\<close>

theorem bare_annotation_never_flagged:
  assumes "distinct (map nid (class_defs (preorder tree)))"
      and "ClassDef i n bs b ds \<in> set (class_defs (preorder tree))"
      and "a \<in> set (declared_bare b)"
      and "a \<notin> set (declared_with_value b)"
  shows "filter (\<lambda>v. vnode v = Some i \<and> vtext v = a) (class_attribute_run tree) = []
       \<and> filter (\<lambda>v. vtext v = a) (check_attributes_shadowing (ClassDef i n bs b ds)) = []"
proof -
  have "filter (\<lambda>v. vtext v = a) (check_attributes_shadowing (ClassDef i n bs b ds)) = []"
    using assms(4) by (auto simp: filter_empty_conv shadowed_names_def mk_violation_def)
  then show ?thesis
    using run_at_class [OF assms(1,2), of "\<lambda>v. vtext v = a"] by simp
qed

theorem shadowed_attribute_reported_once_witness:
  "distinct (map nid (class_defs (preorder
      (Module [ClassDef 1 ''ClassWithAttrs'' [] class_attribute_logic []]))))
   \<and> ClassDef 1 ''ClassWithAttrs'' [] class_attribute_logic []
       \<in> set (class_defs (preorder
           (Module [ClassDef 1 ''ClassWithAttrs'' [] class_attribute_logic []])))
   \<and> ''field1'' \<in> set (declared_with_value class_attribute_logic)
   \<and> ''field1'' \<in> set (instance_assigned class_attribute_logic)
   \<and> \<not> is_exempt []
   \<and> filter (\<lambda>v. vnode v = Some 1 \<and> vtext v = ''field1'')
        (class_attribute_run (Module [ClassDef 1 ''ClassWithAttrs'' [] class_attribute_logic []])) =
      [mk_violation ShadowedClassAttributeViolation (Some 1) ''field1'' None]"
proof -
  have d: "distinct (map nid (class_defs (preorder
      (Module [ClassDef 1 ''ClassWithAttrs'' [] class_attribute_logic []]))))"
    by code_simp
  have m: "ClassDef 1 ''ClassWithAttrs'' [] class_attribute_logic []
       \<in> set (class_defs (preorder
           (Module [ClassDef 1 ''ClassWithAttrs'' [] class_attribute_logic []])))"
    by code_simp
  have w: "''field1'' \<in> set (declared_with_value class_attribute_logic)"
    by code_simp
  have a: "''field1'' \<in> set (instance_assigned class_attribute_logic)"
    by code_simp
  have e: "\<not> is_exempt []"
    by code_simp
  from shadowed_attribute_reported_once [OF d m w a e]
  have r: "filter (\<lambda>v. vnode v = Some 1 \<and> vtext v = ''field1'')
        (class_attribute_run (Module [ClassDef 1 ''ClassWithAttrs'' [] class_attribute_logic []])) =
      [mk_violation ShadowedClassAttributeViolation (Some 1) ''field1'' None]"
    by (rule conjunct1)
  show ?thesis
    by (intro conjI) (fact d m w a e r)+
qed



theorem bare_annotation_never_flagged_witness:
  "''field1'' \<in> set (declared_bare class_annotation)
   \<and> ''field1'' \<notin> set (declared_with_value class_annotation)
   \<and> ''field1'' \<in> set (instance_assigned class_annotation)
   \<and> filter (\<lambda>v. vnode v = Some 1 \<and> vtext v = ''field1'')
        (class_attribute_run (Module [ClassDef 1 ''ClassWithAttrs'' [] class_annotation []])) = []
   \<and> class_attribute_run (Module [ClassDef 1 ''ClassWithAttrs'' [] class_annotation []]) = []"
proof -
  let ?t = "Module [ClassDef 1 ''ClassWithAttrs'' [] class_annotation []]"
  have d: "distinct (map nid (class_defs (preorder ?t)))" by code_simp
  have m: "ClassDef 1 ''ClassWithAttrs'' [] class_annotation [] \<in> set (class_defs (preorder ?t))"
    by code_simp
  have b: "''field1'' \<in> set (declared_bare class_annotation)" by code_simp
  have w: "''field1'' \<notin> set (declared_with_value class_annotation)" by code_simp
  have a: "''field1'' \<in> set (instance_assigned class_annotation)" by code_simp
  have e: "class_attribute_run ?t = []" by code_simp
  have r: "filter (\<lambda>v. vnode v = Some 1 \<and> vtext v = ''field1'') (class_attribute_run ?t) = []"
    using bare_annotation_never_flagged [OF d m b w] by (rule conjunct1)
  show ?thesis
    by (intro conjI) (fact b w a r e)+
qed

section \<open>ElifVisitor: the dictionary of chains\<close>

lemma refs_Nil [simp]: "refs [] = {}"
  by (simp add: refs_def)

lemma refs_Cons [simp]: "refs ((r, cs) # d) = set cs \<union> refs d"
  by (simp add: refs_def)

lemma refs_extend: "refs (extend_children d r xs) = refs d \<union> set xs"
  by (induction d r xs rule: extend_children.induct) auto

lemma keys_extend: "fst ` set (extend_children d r xs) = insert r (fst ` set d)"
  by (induction d r xs rule: extend_children.induct) auto

lemma distinct_keys_extend:
  "distinct (map fst d) \<Longrightarrow> distinct (map fst (extend_children d r xs))"
  by (induction d r xs rule: extend_children.induct) (auto simp: keys_extend)

lemma children_of_extend:
  "children_of (extend_children d r xs) k =
     (if k = r then children_of d r @ xs else children_of d k)"
  by (induction d r xs rule: extend_children.induct) (auto simp: children_of_def)

lemma extend_extend:
  "extend_children (extend_children d r xs) r ys = extend_children d r (xs @ ys)"
  by (induction d r xs rule: extend_children.induct) auto

lemma get_root_fresh: "x \<notin> refs d \<Longrightarrow> get_root_if_node d x = x"
  by (induction d x rule: get_root_if_node.induct) auto

lemma get_root_extend_other:
  "x \<notin> set xs \<Longrightarrow> get_root_if_node (extend_children d r xs) x = get_root_if_node d x"
  by (induction d r xs rule: extend_children.induct) auto

lemma get_root_extend_new:
  "x \<notin> refs d \<Longrightarrow> x \<in> set xs \<Longrightarrow> get_root_if_node (extend_children d r xs) x = r"
  by (induction d r xs rule: extend_children.induct) auto

lemma event_ids_simps [simp]:
  "event_ids [] = {}"
  "event_ids (ev # evs) = set (snd ev) \<union> event_ids evs"
  "event_ids (xs @ ys) = event_ids xs \<union> event_ids ys"
  by (auto simp: event_ids_def)

lemma event_ids_concat: "event_ids (concat xss) = (\<Union>xs \<in> set xss. event_ids xs)"
  by (induction xss) auto

lemma refs_fold: "refs (fold apply_event evs d) = refs d \<union> event_ids evs"
  by (induction evs arbitrary: d) (auto simp: apply_event_def refs_extend)

lemma get_root_fold:
  "x \<notin> event_ids evs \<Longrightarrow> get_root_if_node (fold apply_event evs d) x = get_root_if_node d x"
  by (induction evs arbitrary: d) (auto simp: apply_event_def get_root_extend_other)

lemma children_of_fold:
  "children_of (fold apply_event evs d) k =
     children_of d k @ concat (map snd (filter (\<lambda>ev. fst ev = k) evs))"
  by (induction evs arbitrary: d) (auto simp: apply_event_def children_of_extend)

lemma keys_fold: "fst ` set (fold apply_event evs d) = fst ` set d \<union> fst ` set evs"
  by (induction evs arbitrary: d) (auto simp: apply_event_def keys_extend)

lemma distinct_keys_fold:
  "distinct (map fst d) \<Longrightarrow> distinct (map fst (fold apply_event evs d))"
  by (induction evs arbitrary: d) (auto simp: apply_event_def distinct_keys_extend)

section \<open>ElifVisitor: the traversal as a list of updates\<close>

lemma ids_Nil [simp]: "ids [] = {}"
  by (simp add: ids_def)

lemma ids_Cons: "ids (t # ts) = ids [t] \<union> ids ts"
  by (auto simp: ids_def)

lemma ids_append: "ids (xs @ ys) = ids xs \<union> ids ys"
  by (auto simp: ids_def)

lemma ids_single: "ids [INode i h os b e] = insert i (ids b \<union> ids e)"
  by (auto simp: ids_def)

lemma self_in_subtrees: "t \<in> set (subtrees t)"
  by (cases t) simp

lemma iid_in_ids: "t \<in> set ts \<Longrightarrow> iid t \<in> ids ts"
  unfolding ids_def using self_in_subtrees by fastforce

lemma ids_mono: "t \<in> set ts \<Longrightarrow> ids [t] \<subseteq> ids ts"
  by (auto simp: ids_def)

lemma distinct_ids_Nil [simp]: "distinct_ids []"
  by (simp add: distinct_ids_def)

lemma distinct_ids_Cons:
  "distinct_ids (t # ts) \<longleftrightarrow> distinct_ids [t] \<and> distinct_ids ts \<and> ids [t] \<inter> ids ts = {}"
  by (auto simp: distinct_ids_def ids_def)

lemma distinct_ids_append:
  "distinct_ids (xs @ ys) \<longleftrightarrow> distinct_ids xs \<and> distinct_ids ys \<and> ids xs \<inter> ids ys = {}"
  by (auto simp: distinct_ids_def ids_def)

lemma distinct_ids_single:
  "distinct_ids [INode i h os b e] \<longleftrightarrow>
     i \<notin> ids b \<and> i \<notin> ids e \<and> distinct_ids b \<and> distinct_ids e \<and> ids b \<inter> ids e = {}"
  by (auto simp: distinct_ids_def ids_def)

lemma distinct_ids_member: "distinct_ids ts \<Longrightarrow> t \<in> set ts \<Longrightarrow> distinct_ids [t]"
proof (induction ts)
  case (Cons a ts)
  then show ?case using distinct_ids_Cons [of a ts] by auto
qed simp

lemma event_ids_events: "wf_itree n \<Longrightarrow> event_ids (events ow n) \<subseteq> ids [n]"
proof (induction ow n rule: events.induct)
  case (1 ow i h os b e)
  let ?root = "case ow of Some r \<Rightarrow> r | None \<Rightarrow> i"
  have b: "event_ids (concat (map (events None) b)) \<subseteq> ids b"
    using 1 by (fastforce simp: event_ids_concat list_all_iff dest: ids_mono)
  have e: "event_ids (concat (map (events (if h then Some ?root else None)) e)) \<subseteq> ids e"
    using 1 by (fastforce simp: event_ids_concat list_all_iff dest: ids_mono)
  have o: "h \<Longrightarrow> set os \<subseteq> ids e"
    using 1(3) by (auto dest: iid_in_ids)
  show ?case
    using b e o by (auto simp: ids_single Let_def)
qed

lemma event_keys_events:
  "(k, xs) \<in> set (events ow n) \<Longrightarrow> ow = Some k \<or> k \<in> ids [n]"
proof (induction ow n arbitrary: k xs rule: events.induct)
  case (1 ow i h os b e)
  let ?root = "case ow of Some r \<Rightarrow> r | None \<Rightarrow> i"
  from 1(3) consider
      (own) "h" "k = ?root"
    | (body) x where "x \<in> set b" "(k, xs) \<in> set (events None x)"
    | (alt) x where "x \<in> set e" "(k, xs) \<in> set (events (if h then Some ?root else None) x)"
    by (auto simp: Let_def split: if_splits)
  then show ?case
  proof cases
    case own
    then show ?thesis by (cases ow) (auto simp: ids_single)
  next
    case body
    then have "k \<in> ids [x]" using 1(1) by blast
    with body(1) show ?thesis using ids_mono [of x b] by (auto simp: ids_single)
  next
    case alt
    then have "(if h then Some ?root else None) = Some k \<or> k \<in> ids [x]"
      using 1(2) [OF refl] by blast
    with alt(1) show ?thesis
      using ids_mono [of x e] by (cases ow) (auto simp: ids_single split: if_splits)
  qed
qed


lemma fold_forest:
  assumes step: "\<And>n d. n \<in> set ns \<Longrightarrow> owner_ok d ow n \<Longrightarrow>
            fold istep (subtrees n) d = fold apply_event (events ow n) d"
      and dist: "distinct_ids ns"
      and wf: "list_all wf_itree ns"
      and P1: "\<And>x. x \<in> ids ns \<Longrightarrow> x \<in> refs d \<Longrightarrow> ow \<noteq> None \<and> x \<in> iid ` set ns"
      and P2: "\<And>r n. ow = Some r \<Longrightarrow> n \<in> set ns \<Longrightarrow> get_root_if_node d (iid n) = r"
  shows "fold istep (concat (map subtrees ns)) d =
         fold apply_event (concat (map (events ow) ns)) d"
  using assms
proof (induction ns arbitrary: d)
  case Nil
  show ?case by simp
next
  case (Cons n ns)
  have dn: "distinct_ids [n]" "distinct_ids ns" "ids [n] \<inter> ids ns = {}"
    using Cons.prems(2) distinct_ids_Cons [of n ns] by auto
  have wfn: "wf_itree n" "list_all wf_itree ns"
    using Cons.prems(3) by auto
  have tops: "iid ` set ns \<subseteq> ids ns"
    using iid_in_ids by auto
  have self: "iid n \<in> ids [n]"
    using iid_in_ids [of n "[n]"] by simp
  have ok: "owner_ok d ow n"
    unfolding owner_ok_def
  proof (rule conjI; intro ballI impI allI)
    fix x assume x: "x \<in> ids [n]" "x \<in> refs d"
    then have "ow \<noteq> None \<and> x \<in> iid ` set (n # ns)"
      using Cons.prems(4) [of x] by (auto simp: ids_Cons [of n ns])
    moreover have "x \<notin> iid ` set ns"
      using x(1) dn(3) tops by blast
    ultimately show "ow \<noteq> None \<and> x = iid n" by auto
  next
    fix r assume "ow = Some r"
    then show "get_root_if_node d (iid n) = r" using Cons.prems(5) by simp
  qed
  let ?d' = "fold apply_event (events ow n) d"
  have s1: "fold istep (subtrees n) d = ?d'"
    using Cons.prems(1) [of n d] ok by simp
  have sub: "event_ids (events ow n) \<subseteq> ids [n]"
    using wfn(1) by (rule event_ids_events)
  have "fold istep (concat (map subtrees ns)) ?d' =
        fold apply_event (concat (map (events ow) ns)) ?d'"
  proof (rule Cons.IH)
    show "fold istep (subtrees m) d0 = fold apply_event (events ow m) d0"
      if "m \<in> set ns" "owner_ok d0 ow m" for m d0
      using that Cons.prems(1) [of m d0] by simp
    show "distinct_ids ns" by (rule dn(2))
    show "list_all wf_itree ns" by (rule wfn(2))
    show "ow \<noteq> None \<and> x \<in> iid ` set ns" if x: "x \<in> ids ns" "x \<in> refs ?d'" for x
    proof -
      have "x \<notin> ids [n]" using x(1) dn(3) by blast
      then have "x \<in> refs d" using x(2) sub by (auto simp: refs_fold)
      then have "ow \<noteq> None \<and> x \<in> iid ` set (n # ns)"
        using Cons.prems(4) [of x] x(1) by (auto simp: ids_Cons [of n ns])
      moreover have "x \<noteq> iid n" using \<open>x \<notin> ids [n]\<close> self by auto
      ultimately show ?thesis by auto
    qed
    show "get_root_if_node ?d' (iid m) = r" if "ow = Some r" "m \<in> set ns" for r m
    proof -
      have "iid m \<notin> event_ids (events ow n)"
        using that(2) tops dn(3) sub by blast
      then have "get_root_if_node ?d' (iid m) = get_root_if_node d (iid m)"
        by (rule get_root_fold)
      then show ?thesis using Cons.prems(5) [of r m] that by simp
    qed
  qed
  then show ?case by (simp add: s1)
qed


lemma event_ids_forest:
  "list_all wf_itree ns \<Longrightarrow> event_ids (concat (map (events ow) ns)) \<subseteq> ids ns"
proof (induction ns)
  case (Cons n ns)
  then show ?case
    using event_ids_events [of n ow] by (auto simp: ids_Cons [of n ns])
qed simp

lemma traverse_events:
  "distinct_ids [n] \<Longrightarrow> wf_itree n \<Longrightarrow> owner_ok d ow n \<Longrightarrow>
     fold istep (subtrees n) d = fold apply_event (events ow n) d"
proof (induction n arbitrary: d ow)
  case (INode i h os b e)
  let ?n = "INode i h os b e"
  let ?root = "case ow of Some r \<Rightarrow> r | None \<Rightarrow> i"
  let ?own = "if h then [(?root, (if i \<noteq> ?root then [i] else []) @ os)] else []"
  let ?ow' = "if h then Some ?root else None"
  have dist: "i \<notin> ids b" "i \<notin> ids e" "distinct_ids b" "distinct_ids e" "ids b \<inter> ids e = {}"
    using INode.prems(1) distinct_ids_single [of i h os b e] by auto
  have wf: "h \<Longrightarrow> map iid e = os" "list_all wf_itree b" "list_all wf_itree e"
    using INode.prems(2) by auto
  have ok1: "\<And>x. x \<in> ids [?n] \<Longrightarrow> x \<in> refs d \<Longrightarrow> ow \<noteq> None \<and> x = i"
    and ok2: "\<And>r. ow = Some r \<Longrightarrow> get_root_if_node d i = r"
    using INode.prems(3) unfolding owner_ok_def by auto
  have fresh: "x \<notin> refs d" if "x \<in> ids b \<union> ids e" for x
    using that ok1 [of x] dist by (auto simp: ids_single)
  have root: "get_root_if_node d i = ?root"
  proof (cases ow)
    case None
    then have "i \<notin> refs d" using ok1 [of i] by (auto simp: ids_single)
    then show ?thesis using None by (simp add: get_root_fresh)
  next
    case (Some r)
    then show ?thesis using ok2 by simp
  qed
  have own: "istep ?n d = fold apply_event ?own d"
    by (simp add: root apply_event_def Let_def extend_extend)
  let ?d1 = "fold apply_event ?own d"
  have os_e: "set os \<subseteq> iid ` set e" if h
    using wf(1) [OF that] by auto
  have tops_e: "iid ` set e \<subseteq> ids e"
    using iid_in_ids by auto
  have refs1: "refs ?d1 \<subseteq> refs d \<union> {i} \<union> (if h then set os else {})"
    by (auto simp: refs_fold)
  have body: "fold istep (concat (map subtrees b)) ?d1 =
              fold apply_event (concat (map (events None) b)) ?d1"
  proof (rule fold_forest)
    show "fold istep (subtrees m) d0 = fold apply_event (events None m) d0"
      if "m \<in> set b" "owner_ok d0 None m" for m d0
      using that INode.IH(1) [of m d0 None] distinct_ids_member [OF dist(3)] wf(2)
      by (auto simp: list_all_iff)
    show "distinct_ids b" by (rule dist(3))
    show "list_all wf_itree b" by (rule wf(2))
    show "None \<noteq> None \<and> x \<in> iid ` set b" if x: "x \<in> ids b" "x \<in> refs ?d1" for x
    proof -
      have "x \<notin> refs d" "x \<noteq> i" using x(1) fresh dist(1) by auto
      moreover have "x \<notin> set os" if h
        using os_e [OF that] tops_e x(1) dist(5) by blast
      ultimately have False using x(2) refs1 by (auto split: if_splits)
      then show ?thesis ..
    qed
    show "get_root_if_node ?d1 (iid m) = r" if "None = Some r" for r m
      using that by simp
  qed
  let ?d2 = "fold apply_event (concat (map (events None) b)) ?d1"
  have ev_b: "event_ids (concat (map (events None) b)) \<subseteq> ids b"
    using wf(2) by (rule event_ids_forest)
  have alt: "fold istep (concat (map subtrees e)) ?d2 =
             fold apply_event (concat (map (events ?ow') e)) ?d2"
  proof (rule fold_forest)
    show "fold istep (subtrees m) d0 = fold apply_event (events ?ow' m) d0"
      if "m \<in> set e" "owner_ok d0 ?ow' m" for m d0
      using that INode.IH(2) [of m d0 ?ow'] distinct_ids_member [OF dist(4)] wf(3)
      by (auto simp: list_all_iff)
    show "distinct_ids e" by (rule dist(4))
    show "list_all wf_itree e" by (rule wf(3))
    show "?ow' \<noteq> None \<and> x \<in> iid ` set e" if x: "x \<in> ids e" "x \<in> refs ?d2" for x
    proof -
      have "x \<notin> ids b" using x(1) dist(5) by blast
      then have "x \<in> refs ?d1" using x(2) ev_b by (auto simp: refs_fold)
      moreover have "x \<notin> refs d" "x \<noteq> i" using x(1) fresh dist(2) by auto
      ultimately have "h \<and> x \<in> set os" using refs1 by (auto split: if_splits)
      then show ?thesis using os_e by auto
    qed
    show "get_root_if_node ?d2 (iid m) = r" if r: "?ow' = Some r" and m: "m \<in> set e" for r m
    proof -
      from r have h: h and rr: "r = ?root" by (auto split: if_splits)
      have me: "iid m \<in> ids e" using m tops_e by auto
      then have "iid m \<notin> event_ids (concat (map (events None) b))"
        using ev_b dist(5) by blast
      then have g2: "get_root_if_node ?d2 (iid m) = get_root_if_node ?d1 (iid m)"
        by (rule get_root_fold)
      have d1: "?d1 = extend_children d ?root ((if i \<noteq> ?root then [i] else []) @ os)"
        using h by (simp add: apply_event_def)
      have "get_root_if_node
              (extend_children d ?root ((if i \<noteq> ?root then [i] else []) @ os)) (iid m) = ?root"
      proof (rule get_root_extend_new)
        show "iid m \<notin> refs d" using me fresh by auto
        show "iid m \<in> set ((if i \<noteq> ?root then [i] else []) @ os)"
          using wf(1) [OF h] m by auto
      qed
      then have "get_root_if_node ?d1 (iid m) = ?root"
        by (simp only: d1)
      with g2 show ?thesis by (simp only: rr)
    qed
  qed
  have ev: "events ow ?n = ?own @ concat (map (events None) b) @ concat (map (events ?ow') e)"
    by (simp add: Let_def)
  have "fold istep (subtrees ?n) d =
        fold istep (concat (map subtrees e)) (fold istep (concat (map subtrees b)) (istep ?n d))"
    by simp
  also have "\<dots> = fold apply_event (concat (map (events ?ow') e)) ?d2"
    by (simp only: own body alt)
  also have "\<dots> = fold apply_event (events ow ?n) d"
    by (simp only: ev fold_append comp_def)
  finally show ?case .
qed

section \<open>ElifVisitor: the updates of a cascade\<close>

lemma at_key_simps [simp]:
  "at_key k [] = []"
  "at_key k (ev # evs) = (if fst ev = k then ev # at_key k evs else at_key k evs)"
  "at_key k (xs @ ys) = at_key k xs @ at_key k ys"
  by (simp_all add: at_key_def)

lemma at_key_empty: "(\<And>xs. (k, xs) \<notin> set evs) \<Longrightarrow> at_key k evs = []"
  by (auto simp: at_key_def filter_empty_conv)

lemma at_key_events_outside:
  "ow \<noteq> Some k \<Longrightarrow> k \<notin> ids [n] \<Longrightarrow> at_key k (events ow n) = []"
  using event_keys_events [of k _ ow n] by (intro at_key_empty) blast

lemma at_key_forest_outside:
  "ow \<noteq> Some k \<Longrightarrow> k \<notin> ids ns \<Longrightarrow> at_key k (concat (map (events ow) ns)) = []"
proof (induction ns)
  case (Cons n ns)
  then show ?case
    using at_key_events_outside [of ow k n] by (simp add: ids_Cons [of n ns])
qed simp

lemma ichain_ids:
  "distinct_ids [n] \<Longrightarrow> set (ichain k n) \<subseteq> ids [n] - {iid n} \<and> distinct (ichain k n)"
proof (induction k n rule: ichain.induct)
  case (1 k i h os b c)
  have d: "i \<notin> ids [c]" "distinct_ids [c]"
    using 1(2) distinct_ids_single [of i h os b "[c]"] by auto
  then have ih: "set (ichain k c) \<subseteq> ids [c] - {iid c}" "distinct (ichain k c)"
    using 1(1) by auto
  have "iid c \<in> ids [c]" using iid_in_ids [of c "[c]"] by simp
  then show ?case using ih d by (auto simp: ids_single)
qed simp_all

lemma ichain_length: "icascade k n \<Longrightarrow> length (ichain k n) = k"
  by (induction k n rule: icascade.induct) simp_all

lemma chain_events_ids:
  "event_ids (chain_events r k c) \<union> {iid c} = {iid c} \<union> set (ichain k c)"
  by (induction r k c rule: chain_events.induct) auto

lemma chain_events_owner:
  assumes "icascade k c" "wf_itree c" "distinct_ids [c]" "r \<notin> ids [c]"
  shows "at_key r (events (Some r) c) = chain_events r k c
       \<and> (\<forall>q \<in> set (iid c # ichain k c). at_key q (events (Some r) c) = [])"
  using assms
proof (induction k c rule: icascade.induct)
  case (1 i h os b e)
  then have nh: "\<not> h" and r: "r \<noteq> i" "r \<notin> ids b" "r \<notin> ids e"
    and i: "i \<notin> ids b" "i \<notin> ids e"
    using distinct_ids_single [of i h os b e] by (auto simp: ids_single)
  show ?case
    using nh r i by (simp add: at_key_forest_outside)
next
  case (2 k i h os b c)
  then have h: h and c: "icascade k c" and os: "os = [iid c]"
    and wf: "wf_itree c" by auto
  have r: "r \<noteq> i" "r \<notin> ids b" "r \<notin> ids [c]"
    using 2(5) by (auto simp: ids_single)
  have d: "i \<notin> ids b" "i \<notin> ids [c]" "distinct_ids [c]" "ids b \<inter> ids [c] = {}"
    using 2(4) distinct_ids_single [of i h os b "[c]"] by auto
  have ih: "at_key r (events (Some r) c) = chain_events r k c"
    "\<And>q. q \<in> set (iid c # ichain k c) \<Longrightarrow> at_key q (events (Some r) c) = []"
    using 2(1) [OF c wf d(3) r(3)] by auto
  have chain: "set (iid c # ichain k c) \<subseteq> ids [c]"
    using ichain_ids [OF d(3), of k] iid_in_ids [of c "[c]"] by auto
  have ev: "events (Some r) (INode i h os b [c]) =
      (r, [i, iid c]) # concat (map (events None) b) @ events (Some r) c"
    using h os r(1) by (simp add: Let_def)
  have 1: "at_key r (events (Some r) (INode i h os b [c])) = chain_events r (Suc k) (INode i h os b [c])"
    unfolding ev using r(2) ih(1) by (simp add: at_key_forest_outside)
  have 2: "at_key q (events (Some r) (INode i h os b [c])) = []"
    if q: "q \<in> set (iid (INode i h os b [c]) # ichain (Suc k) (INode i h os b [c]))" for q
  proof -
    from q consider "q = i" | "q \<in> set (iid c # ichain k c)" by auto
    then show ?thesis
    proof cases
      case 1
      then show ?thesis
        unfolding ev using r(1) d(1,2) at_key_events_outside [of "Some r" i c]
        by (simp add: at_key_forest_outside)
    next
      case 2
      then have "q \<in> ids [c]" using chain by blast
      then have "q \<noteq> r" "q \<notin> ids b" using r(3) d(4) by auto
      then show ?thesis
        unfolding ev using ih(2) [OF 2] by (simp add: at_key_forest_outside)
    qed
  qed
  show ?case using 1 2 by blast
qed simp_all


lemma set_concat_snd: "set (concat (map snd evs)) = event_ids evs"
  by (auto simp: event_ids_def)

lemma root_events:
  assumes "icascade (Suc k) n" "wf_itree n" "distinct_ids [n]"
  shows "event_ids (at_key (iid n) (events None n)) = set (ichain (Suc k) n)
       \<and> (\<forall>q \<in> set (ichain (Suc k) n). at_key q (events None n) = [])
       \<and> at_key (iid n) (events None n) \<noteq> []"
proof -
  from assms(1) obtain i h os b c where n: "n = INode i h os b [c]" and h: h
    and c: "icascade k c"
    by (auto elim: icascade.elims(2))
  have os: "os = [iid c]" and wf: "wf_itree c"
    using assms(2) h n by auto
  have d: "i \<notin> ids b" "i \<notin> ids [c]" "distinct_ids [c]" "ids b \<inter> ids [c] = {}"
    using assms(3) distinct_ids_single [of i h os b "[c]"] n by auto
  have ev: "events None n = (i, [iid c]) # concat (map (events None) b) @ events (Some i) c"
    using n h os by (simp add: Let_def)
  have ch: "at_key i (events (Some i) c) = chain_events i k c"
    "\<And>q. q \<in> set (iid c # ichain k c) \<Longrightarrow> at_key q (events (Some i) c) = []"
    using chain_events_owner [OF c wf d(3) d(2)] by auto
  have chain: "set (iid c # ichain k c) \<subseteq> ids [c]"
    using ichain_ids [OF d(3), of k] iid_in_ids [of c "[c]"] by auto
  have 1: "at_key (iid n) (events None n) = (i, [iid c]) # chain_events i k c"
    unfolding ev using n d(1) ch(1) by (simp add: at_key_forest_outside)
  have 2: "event_ids ((i, [iid c]) # chain_events i k c) = set (ichain (Suc k) n)"
    using chain_events_ids [of i k c] n by auto
  have 3: "at_key q (events None n) = []" if q: "q \<in> set (ichain (Suc k) n)" for q
  proof -
    from q n have q': "q \<in> set (iid c # ichain k c)" by simp
    then have "q \<in> ids [c]" using chain by blast
    then have "q \<noteq> i" "q \<notin> ids b" using d by auto
    then show ?thesis
      unfolding ev using ch(2) [OF q'] by (simp add: at_key_forest_outside)
  qed
  show ?thesis using 1 2 3 by simp
qed

lemma subtrees_trans: "p \<in> set (subtrees m) \<Longrightarrow> set (subtrees p) \<subseteq> set (subtrees m)"
proof (induction m)
  case (INode i h os b e)
  then show ?case by (cases "p = INode i h os b e") fastforce+
qed

lemma ids_subtree: "p \<in> set (subtrees m) \<Longrightarrow> ids [p] \<subseteq> ids [m]"
  using subtrees_trans [of p m] by (auto simp: ids_def)

lemma locate_forest:
  assumes step: "\<And>n. n \<in> set ns \<Longrightarrow> p \<in> set (subtrees n) \<Longrightarrow>
            at_key q (events ow n) = at_key q (events None p)"
      and "p \<in> set (concat (map subtrees ns))"
      and "distinct_ids ns"
      and "q \<in> ids [p]"
      and "\<And>r. ow = Some r \<Longrightarrow> r \<notin> ids ns"
  shows "at_key q (concat (map (events ow) ns)) = at_key q (events None p)"
  using assms
proof (induction ns)
  case Nil
  then show ?case by simp
next
  case (Cons n ns)
  have dn: "distinct_ids ns" "ids [n] \<inter> ids ns = {}"
    using Cons.prems(3) distinct_ids_Cons [of n ns] by auto
  have ow: "ow \<noteq> Some q" if "q \<in> ids (n # ns)"
    using that Cons.prems(5) by auto
  show ?case
  proof (cases "p \<in> set (subtrees n)")
    case True
    then have q: "q \<in> ids [n]" using Cons.prems(4) ids_subtree by blast
    then have "q \<notin> ids ns" using dn(2) by blast
    moreover have "ow \<noteq> Some q" using ow q by (simp add: ids_Cons [of n ns])
    ultimately have "at_key q (concat (map (events ow) ns)) = []"
      by (simp add: at_key_forest_outside)
    then show ?thesis using Cons.prems(1) [of n] True by simp
  next
    case False
    then have p: "p \<in> set (concat (map subtrees ns))" using Cons.prems(2) by auto
    then obtain m where "m \<in> set ns" "p \<in> set (subtrees m)" by auto
    then have q: "q \<in> ids ns" using Cons.prems(4) ids_subtree ids_mono by blast
    then have "q \<notin> ids [n]" using dn(2) by blast
    moreover have "ow \<noteq> Some q" using ow q by (simp add: ids_Cons [of n ns])
    ultimately have "at_key q (events ow n) = []"
      by (simp add: at_key_events_outside)
    moreover have "at_key q (concat (map (events ow) ns)) = at_key q (events None p)"
    proof (rule Cons.IH)
      show "at_key q (events ow m) = at_key q (events None p)"
        if "m \<in> set ns" "p \<in> set (subtrees m)" for m
        using that Cons.prems(1) [of m] by simp
      show "p \<in> set (concat (map subtrees ns))" by (rule p)
      show "distinct_ids ns" by (rule dn(1))
      show "q \<in> ids [p]" by (rule Cons.prems(4))
      show "r \<notin> ids ns" if "ow = Some r" for r
        using that Cons.prems(5) [of r] by (simp add: ids_Cons [of n ns])
    qed
    ultimately show ?thesis by simp
  qed
qed


lemma locate_tree:
  assumes "p \<in> set (subtrees n)" "distinct_ids [n]" "wf_itree n" "q \<in> ids [p]"
      and "\<And>r. ow = Some r \<Longrightarrow> r \<notin> ids [n] \<and> p \<noteq> n"
      and "\<And>m. m \<in> set (subtrees n) \<Longrightarrow> ielif m \<Longrightarrow> iid p \<notin> set (iorelse m)"
  shows "at_key q (events ow n) = at_key q (events None p)"
  using assms
proof (induction n arbitrary: ow)
  case (INode i h os b e)
  let ?n = "INode i h os b e"
  let ?root = "case ow of Some r \<Rightarrow> r | None \<Rightarrow> i"
  let ?own = "if h then [(?root, (if i \<noteq> ?root then [i] else []) @ os)] else []"
  let ?ow' = "if h then Some ?root else None"
  show ?case
  proof (cases "p = ?n")
    case True
    then have "ow = None" using INode.prems(5) by (cases ow) auto
    then show ?thesis using True by simp
  next
    case False
    have dist: "i \<notin> ids b" "i \<notin> ids e" "distinct_ids b" "distinct_ids e" "ids b \<inter> ids e = {}"
      using INode.prems(2) distinct_ids_single [of i h os b e] by auto
    have wf: "h \<Longrightarrow> map iid e = os" "list_all wf_itree b" "list_all wf_itree e"
      using INode.prems(3) by auto
    have root: "?root \<notin> ids b" "?root \<notin> ids e"
      using dist(1,2) INode.prems(5) by (cases ow; auto simp: ids_single)+
    have ev: "events ow ?n = ?own @ concat (map (events None) b) @ concat (map (events ?ow') e)"
      by (simp add: Let_def)
    have outer: "iid p \<notin> set (iorelse m)" if "m \<in> set (subtrees ?n)" "ielif m" for m
      using that INode.prems(6) by blast
    from False INode.prems(1) consider
        (body) "p \<in> set (concat (map subtrees b))"
      | (alt) "p \<in> set (concat (map subtrees e))"
      by auto
    then show ?thesis
    proof cases
      case body
      then obtain m where m: "m \<in> set b" "p \<in> set (subtrees m)" by auto
      then have q: "q \<in> ids b" using INode.prems(4) ids_subtree ids_mono by blast
      then have q': "q \<noteq> ?root" "q \<notin> ids e" using root(1) dist(5) by auto
      have "at_key q (concat (map (events None) b)) = at_key q (events None p)"
      proof (rule locate_forest)
        show "at_key q (events None m) = at_key q (events None p)"
          if m: "m \<in> set b" "p \<in> set (subtrees m)" for m
        proof (rule INode.IH(1) [OF m])
          show "distinct_ids [m]" using dist(3) m(1) by (rule distinct_ids_member)
          show "wf_itree m" using wf(2) m(1) by (simp add: list_all_iff)
          show "q \<in> ids [p]" by (rule INode.prems(4))
          show "r \<notin> ids [m] \<and> p \<noteq> m" if "None = Some r" for r using that by simp
          show "iid p \<notin> set (iorelse m')" if "m' \<in> set (subtrees m)" "ielif m'" for m'
            using that m(1) by (intro outer) auto
        qed
        show "p \<in> set (concat (map subtrees b))" by (rule body)
        show "distinct_ids b" by (rule dist(3))
        show "q \<in> ids [p]" by (rule INode.prems(4))
        show "r \<notin> ids b" if "None = Some r" for r using that by simp
      qed
      moreover have "at_key q (concat (map (events ?ow') e)) = []"
        using q' by (intro at_key_forest_outside) (auto split: if_splits)
      moreover have "at_key q ?own = []"
        using q'(1) by simp
      ultimately show ?thesis by (simp only: ev at_key_simps(3)) simp
    next
      case alt
      then obtain m where m: "m \<in> set e" "p \<in> set (subtrees m)" by auto
      then have q: "q \<in> ids e" using INode.prems(4) ids_subtree ids_mono by blast
      then have q': "q \<noteq> ?root" "q \<notin> ids b" using root(2) dist(5) by auto
      have "at_key q (concat (map (events ?ow') e)) = at_key q (events None p)"
      proof (rule locate_forest)
        show "at_key q (events ?ow' m) = at_key q (events None p)"
          if m: "m \<in> set e" "p \<in> set (subtrees m)" for m
        proof (rule INode.IH(2) [OF m])
          show "distinct_ids [m]" using dist(4) m(1) by (rule distinct_ids_member)
          show "wf_itree m" using wf(3) m(1) by (simp add: list_all_iff)
          show "q \<in> ids [p]" by (rule INode.prems(4))
          show "r \<notin> ids [m] \<and> p \<noteq> m" if r: "?ow' = Some r" for r
          proof
            from r have h: h and rr: "r = ?root" by (auto split: if_splits)
            show "r \<notin> ids [m]" using rr root(2) ids_mono [OF m(1)] by auto
            have "iid p \<notin> set (iorelse ?n)" using h by (intro outer) auto
            then have "iid p \<notin> iid ` set e" using wf(1) [OF h] by auto
            then show "p \<noteq> m" using m(1) by auto
          qed
          show "iid p \<notin> set (iorelse m')" if "m' \<in> set (subtrees m)" "ielif m'" for m'
            using that m(1) by (intro outer) auto
        qed
        show "p \<in> set (concat (map subtrees e))" by (rule alt)
        show "distinct_ids e" by (rule dist(4))
        show "q \<in> ids [p]" by (rule INode.prems(4))
        show "r \<notin> ids e" if "?ow' = Some r" for r
          using that root(2) by (auto split: if_splits)
      qed
      moreover have "at_key q (concat (map (events None) b)) = []"
        using q'(2) by (intro at_key_forest_outside) auto
      moreover have "at_key q ?own = []"
        using q'(1) by simp
      ultimately show ?thesis by (simp only: ev at_key_simps(3)) simp
    qed
  qed
qed

end
